theory Spec2Isabelle
  imports Main "HOL-Library.Multiset"
begin

section \<open>Dependency graph (pkg/compose/dependencies.go)\<close>

text \<open>
  Go leaves the order in which \<open>range\<close> walks a map unspecified.  Maps are association
  lists here, and every loop over a map walks the list of its keys in the order a
  \<open>range_order\<close> returns for it; the theorems hold for every order that is a
  permutation.
\<close>

type_synonym range_order = "string list \<Rightarrow> string list"

definition range_ok :: "range_order \<Rightarrow> bool" where
  "range_ok rng = (\<forall>ks. mset (rng ks) = mset ks)"

text \<open>
  A failed call: an \<open>error\<close> value with its message (\<open>fmt.Errorf\<close>), or the panic of
  reading a field through a nil \<open>*Vertex\<close>.
\<close>

datatype failure = Error string | NilPointerDereference

datatype ServiceStatus = ServiceStopped | ServiceStarted

text \<open>
  \<open>Children\<close> and \<open>Parents\<close> are \<open>map[string]*Vertex\<close> in the source; every pointer
  stored there is the vertex that \<open>Graph.Vertices\<close> holds under the same key
  (\<open>AddEdge\<close> takes both from \<open>g.Vertices\<close>, and \<open>NewGraph\<close> adds every vertex
  before the first edge).  The embedding keeps the keys and reads the vertex through the
  graph.  A vertex is stored under its own \<open>Key\<close>.
\<close>

record Vertex =
  Key :: string
  Service :: string
  Status :: ServiceStatus
  Children :: "string list"
  Parents :: "string list"

record Graph =
  Vertices :: "(string \<times> Vertex) list"

text \<open>The part of compose-go's \<open>types.ServiceConfig\<close> that \<open>NewGraph\<close> reads:
  the name and the result of \<open>GetDependencies()\<close>.\<close>

record ServiceConfig =
  Name :: string
  Dependencies :: "string list"

text \<open>Modelled from the spec: \<open>utils.StringContains\<close> (pkg/utils is not under src/)
  tells whether a slice holds a string.\<close>

definition StringContains :: "string list \<Rightarrow> string \<Rightarrow> bool" where
  "StringContains array needle = (needle \<in> set array)"

fun strings_Join :: "string list \<Rightarrow> string \<Rightarrow> string" where
  "strings_Join [] sep = []"
| "strings_Join [x] sep = x"
| "strings_Join (x # y # ys) sep = x @ sep @ strings_Join (y # ys) sep"

definition remove :: "string list \<Rightarrow> string \<Rightarrow> string list" where
  "remove slice item = filter (\<lambda>i. i \<noteq> item) slice"

definition NewVertex :: "string \<Rightarrow> string \<Rightarrow> ServiceStatus \<Rightarrow> Vertex" where
  "NewVertex key service initialStatus =
     \<lparr>Key = key, Service = service, Status = initialStatus, Children = [], Parents = []\<rparr>"

text \<open>Assignment \<open>m[key] = v\<close> to a map: replaces the entry or adds one.\<close>

fun assign :: "string \<Rightarrow> 'v \<Rightarrow> (string \<times> 'v) list \<Rightarrow> (string \<times> 'v) list" where
  "assign key v [] = [(key, v)]"
| "assign key v ((k, w) # m) = (if k = key then (k, v) # m else (k, w) # assign key v m)"

definition AddVertex :: "Graph \<Rightarrow> string \<Rightarrow> string \<Rightarrow> ServiceStatus \<Rightarrow> Graph" where
  "AddVertex g key service initialStatus =
     (let v = NewVertex key service initialStatus
      in g\<lparr>Vertices := assign key v (Vertices g)\<rparr>)"

text \<open>A write through the pointer \<open>g.Vertices[key]\<close> to the vertex it points to.\<close>

definition modify :: "Graph \<Rightarrow> string \<Rightarrow> (Vertex \<Rightarrow> Vertex) \<Rightarrow> Graph" where
  "modify g key f =
     g\<lparr>Vertices := map (\<lambda>(k, v). if k = key then (k, f v) else (k, v)) (Vertices g)\<rparr>"

definition AddEdge :: "Graph \<Rightarrow> string \<Rightarrow> string \<Rightarrow> failure + Graph" where
  "AddEdge g source destination =
     (case map_of (Vertices g) source of
        None \<Rightarrow> Inl (Error (''could not find '' @ source))
      | Some sourceVertex \<Rightarrow>
          (case map_of (Vertices g) destination of
             None \<Rightarrow> Inl (Error (''could not find '' @ destination))
           | Some destinationVertex \<Rightarrow>
               if destination \<in> set (Children sourceVertex) then Inr g
               else
                 Inr (modify
                        (modify g source (\<lambda>v. v\<lparr>Children := Children v @ [destination]\<rparr>))
                        destination (\<lambda>v. v\<lparr>Parents := Parents v @ [source]\<rparr>))))"

definition Leaves :: "range_order \<Rightarrow> Graph \<Rightarrow> string list" where
  "Leaves rng g =
     filter (\<lambda>k. case map_of (Vertices g) k of None \<Rightarrow> False | Some v \<Rightarrow> length (Children v) = 0)
       (rng (map fst (Vertices g)))"

definition Roots :: "range_order \<Rightarrow> Graph \<Rightarrow> string list" where
  "Roots rng g =
     filter (\<lambda>k. case map_of (Vertices g) k of None \<Rightarrow> False | Some v \<Rightarrow> length (Parents v) = 0)
       (rng (map fst (Vertices g)))"

definition GetParents :: "range_order \<Rightarrow> Vertex \<Rightarrow> string list" where
  "GetParents rng v = rng (Parents v)"

definition GetChildren :: "range_order \<Rightarrow> Vertex \<Rightarrow> string list" where
  "GetChildren rng v = rng (Children v)"

definition UpdateStatus :: "Graph \<Rightarrow> string \<Rightarrow> ServiceStatus \<Rightarrow> failure + Graph" where
  "UpdateStatus g key status =
     (case map_of (Vertices g) key of
        None \<Rightarrow> Inl NilPointerDereference
      | Some _ \<Rightarrow> Inr (modify g key (\<lambda>v. v\<lparr>Status := status\<rparr>)))"

text \<open>\<open>child.Status\<close> of a child reached through its pointer: the status of the vertex
  stored under the child's key.\<close>

definition has_status :: "Graph \<Rightarrow> ServiceStatus \<Rightarrow> string \<Rightarrow> bool" where
  "has_status g status k =
     (case map_of (Vertices g) k of None \<Rightarrow> False | Some v \<Rightarrow> Status v = status)"

definition FilterChildren :: "range_order \<Rightarrow> Graph \<Rightarrow> string \<Rightarrow> ServiceStatus \<Rightarrow> failure + string list" where
  "FilterChildren rng g key status =
     (case map_of (Vertices g) key of
        None \<Rightarrow> Inl NilPointerDereference
      | Some vertex \<Rightarrow> Inr (filter (has_status g status) (rng (Children vertex))))"

definition FilterParents :: "range_order \<Rightarrow> Graph \<Rightarrow> string \<Rightarrow> ServiceStatus \<Rightarrow> failure + string list" where
  "FilterParents rng g key status =
     (case map_of (Vertices g) key of
        None \<Rightarrow> Inl NilPointerDereference
      | Some vertex \<Rightarrow> Inr (filter (has_status g status) (rng (Parents vertex))))"

text \<open>Every key a cycle search can meet: the keys of the graph and the children that
  \<open>range\<close> yields for its vertices.  Only the termination proof uses it.\<close>

definition search_keys :: "range_order \<Rightarrow> Graph \<Rightarrow> string set" where
  "search_keys rng g =
     set (map fst (Vertices g)) \<union> (\<Union>kv \<in> set (Vertices g). set (rng (Children (snd kv))))"

text \<open>
  \<open>Graph.visit\<close>, with the loop over the children as \<open>visit_children\<close>.  The result
  is \<open>Inr (discovered, finished)\<close> when the source returns a nil error.
\<close>

function visit :: "range_order \<Rightarrow> Graph \<Rightarrow> string \<Rightarrow> string list \<Rightarrow> string list \<Rightarrow> string list
      \<Rightarrow> failure + (string list \<times> string list)"
  and visit_children :: "range_order \<Rightarrow> Graph \<Rightarrow> string \<Rightarrow> string list \<Rightarrow> string list \<Rightarrow> string list
      \<Rightarrow> string list \<Rightarrow> failure + (string list \<times> string list)"
where
  "visit rng g key path discovered finished =
     (let discovered = discovered @ [key] in
      case map_of (Vertices g) key of
        None \<Rightarrow> Inl NilPointerDereference
      | Some vertex \<Rightarrow> visit_children rng g key (rng (Children vertex)) path discovered finished)"
| "visit_children rng g key [] path discovered finished =
     (let discovered = remove discovered key;
          finished = finished @ [key]
      in Inr (discovered, finished))"
| "visit_children rng g key (v # vs) path discovered finished =
     (let path' = path @ [v] in
      if StringContains discovered v
      then Inl (Error (''cycle found: '' @ strings_Join path' '' -> ''))
      else if \<not> StringContains finished v
      then (case visit rng g v path' discovered finished of
              Inl err \<Rightarrow> Inl err
            | Inr _ \<Rightarrow> visit_children rng g key vs path discovered finished)
      else visit_children rng g key vs path discovered finished)"
  by pat_completeness auto

termination
proof (relation "inv_image (less_than <*lex*> less_than <*lex*> less_than)
    (\<lambda>x. case x of
       Inl (rng, g, key, path, discovered, finished) \<Rightarrow>
         (card (search_keys rng g - set discovered - {key}), 1::nat, 0::nat)
     | Inr (rng, g, key, vs, path, discovered, finished) \<Rightarrow>
         (card ((search_keys rng g \<union> set vs) - set discovered), 0, length vs))", goal_cases)
  case 1
  show ?case by auto
next
  case (2 rng g key path discovered finished x vertex)
  have "(key, vertex) \<in> set (Vertices g)"
    using 2 by (auto dest: map_of_SomeD)
  then have "set (rng (Children vertex)) \<subseteq> search_keys rng g"
    by (auto simp: search_keys_def intro!: bexI[where x="(key, vertex)"])
  then have "(search_keys rng g \<union> set (rng (Children vertex))) - set x
      = search_keys rng g - set discovered - {key}"
    using 2 by auto
  then show ?case by simp
next
  case (3 rng g key v vs path discovered finished x)
  have fin: "finite ((search_keys rng g \<union> set (v # vs)) - set discovered)"
    by (simp add: search_keys_def)
  have "search_keys rng g - set discovered - {v}
      \<subset> (search_keys rng g \<union> set (v # vs)) - set discovered"
    using 3 by (auto simp: StringContains_def)
  then have "card (search_keys rng g - set discovered - {v})
      < card ((search_keys rng g \<union> set (v # vs)) - set discovered)"
    using fin by (rule psubset_card_mono[rotated])
  then show ?case by simp
next
  case (4 rng g key v vs path discovered finished x x2)
  have fin: "finite ((search_keys rng g \<union> set (v # vs)) - set discovered)"
    by (simp add: search_keys_def)
  have "card ((search_keys rng g \<union> set vs) - set discovered)
      \<le> card ((search_keys rng g \<union> set (v # vs)) - set discovered)"
    using fin by (intro card_mono) auto
  then show ?case by auto
next
  case (5 rng g key v vs path discovered finished x)
  have fin: "finite ((search_keys rng g \<union> set (v # vs)) - set discovered)"
    by (simp add: search_keys_def)
  have "card ((search_keys rng g \<union> set vs) - set discovered)
      \<le> card ((search_keys rng g \<union> set (v # vs)) - set discovered)"
    using fin by (intro card_mono) auto
  then show ?case by auto
qed

text \<open>
  \<open>Graph.HasCycles\<close>: \<open>None\<close> stands for the result \<open>(false, nil)\<close>, \<open>Some err\<close>
  for \<open>(true, err)\<close>.  The loop walks the vertices in \<open>range\<close> order.
\<close>

fun HasCycles_loop :: "range_order \<Rightarrow> Graph \<Rightarrow> string list \<Rightarrow> string list \<Rightarrow> string list
    \<Rightarrow> failure option" where
  "HasCycles_loop rng g [] discovered finished = None"
| "HasCycles_loop rng g (k # ks) discovered finished =
     (let path = [k] in
      if \<not> StringContains discovered k \<and> \<not> StringContains finished k
      then (case visit rng g k path discovered finished of
              Inl err \<Rightarrow> Some err
            | Inr (discovered', finished') \<Rightarrow> HasCycles_loop rng g ks discovered' finished')
      else HasCycles_loop rng g ks discovered finished)"

definition HasCycles :: "range_order \<Rightarrow> Graph \<Rightarrow> failure option" where
  "HasCycles rng g = HasCycles_loop rng g (rng (map fst (Vertices g))) [] []"

text \<open>The error of \<open>AddEdge\<close> is dropped (\<open>_ = graph.AddEdge(s.Name, name)\<close>): the
  graph is the one \<open>AddEdge\<close> left, unchanged when it failed.\<close>

definition add_edges :: "ServiceConfig \<Rightarrow> Graph \<Rightarrow> Graph" where
  "add_edges s graph =
     fold (\<lambda>name g. case AddEdge g (Name s) name of Inl _ \<Rightarrow> g | Inr g' \<Rightarrow> g')
       (Dependencies s) graph"

definition NewGraph :: "range_order \<Rightarrow> ServiceConfig list \<Rightarrow> ServiceStatus \<Rightarrow> failure + Graph" where
  "NewGraph rng services initialStatus =
     (let graph = \<lparr>Vertices = []\<rparr>;
          graph = fold (\<lambda>s g. AddVertex g (Name s) (Name s) initialStatus) services graph;
          graph = fold add_edges services graph
      in case HasCycles rng graph of
           Some err \<Rightarrow> Inl err
         | None \<Rightarrow> Inr graph)"

declare visit.simps [simp del]

section \<open>Traversal (pkg/compose/dependencies.go)\<close>

text \<open>
  The visitor \<open>func(context.Context, string) error\<close> is a function of what it can see
  of the traversal: whether the shared context is done when it returns, and the service
  name.  \<open>None\<close> is the nil error.
\<close>

type_synonym visitor = "bool \<Rightarrow> string \<Rightarrow> string option"

record graphTraversal =
  seen :: "string set"
  extremityNodesFn :: "range_order \<Rightarrow> Graph \<Rightarrow> string list"
  adjacentNodesFn :: "range_order \<Rightarrow> Vertex \<Rightarrow> string list"
  filterAdjacentByStatusFn :: "range_order \<Rightarrow> Graph \<Rightarrow> string \<Rightarrow> ServiceStatus \<Rightarrow> failure + string list"
  targetServiceStatus :: ServiceStatus
  adjacentServiceStatusToSkip :: ServiceStatus
  visitorFn :: visitor
  maxConcurrency :: int

definition upDirectionTraversal :: "visitor \<Rightarrow> graphTraversal" where
  "upDirectionTraversal fn =
     \<lparr>seen = {},
      extremityNodesFn = Leaves,
      adjacentNodesFn = GetParents,
      filterAdjacentByStatusFn = FilterChildren,
      targetServiceStatus = ServiceStarted,
      adjacentServiceStatusToSkip = ServiceStopped,
      visitorFn = fn,
      maxConcurrency = 0\<rparr>"

definition downDirectionTraversal :: "visitor \<Rightarrow> graphTraversal" where
  "downDirectionTraversal fn =
     \<lparr>seen = {},
      extremityNodesFn = Roots,
      adjacentNodesFn = GetChildren,
      filterAdjacentByStatusFn = FilterParents,
      targetServiceStatus = ServiceStopped,
      adjacentServiceStatusToSkip = ServiceStarted,
      visitorFn = fn,
      maxConcurrency = 0\<rparr>"

definition consume :: "graphTraversal \<Rightarrow> string \<Rightarrow> bool \<times> graphTraversal" where
  "consume t nodeKey =
     (if nodeKey \<in> seen t then (False, t)
      else (True, t\<lparr>seen := insert nodeKey (seen t)\<rparr>))"

text \<open>
  \<open>graphTraversal.visit\<close> runs goroutines: the caller, which offers the extremities and
  then waits in \<open>eg.Wait\<close>; the coordinator, which receives from \<open>nodeCh\<close>; and one
  worker for each call of \<open>eg.Go\<close> in \<open>run\<close>.  The embedding is a step relation on the
  shared variables and the position of each goroutine.  A step is one operation on
  shared state: a call under the graph lock or under the traversal's mutex, \<open>eg.Go\<close>,
  the rendezvous on the unbuffered \<open>nodeCh\<close>, the return of a goroutine.  Nodes are
  the keys of their vertices.

  A position inside \<open>run\<close>, with the nodes the loop has not finished: before the status
  filter of the first of them, before \<open>t.consume\<close> for a node that passed the filter,
  before \<open>eg.Go\<close> for a node that was consumed.
\<close>

datatype run_pc =
  Filter "string list"
| Consume string "string list"
| Go string "string list"

text \<open>A worker: started and about to call the visitor, inside the visitor, about to
  send its node (the visitor has returned the error given, the status is updated when
  that is nil), about to return the error.\<close>

datatype worker_pc =
  Spawned
| Visiting
| Sending "string option"
| Sent "string option"

datatype main_pc =
  MainRun run_pc
| MainWait
| MainReturned "string option"

datatype coordinator_pc =
  Receive
| CoordinatorRun run_pc
| CoordinatorReturned

text \<open>\<open>eg_err\<close> is the first error the errgroup has recorded, \<open>ctx_done\<close> the state of
  the shared context, \<open>visited\<close> the log of the visitor invocations (the keys of the
  vertices, in the order of the calls).\<close>

record traversal_state =
  traversal :: graphTraversal
  graph :: Graph
  expect :: int
  main :: main_pc
  coordinator :: coordinator_pc
  workers :: "(string \<times> worker_pc) list"
  nodeCh_closed :: bool
  eg_err :: "string option"
  ctx_done :: bool
  visited :: "string list"

text \<open>The goroutines of the errgroup that have not returned, and the limit that
  \<open>eg.SetLimit(t.maxConcurrency + 1)\<close> puts on \<open>eg.Go\<close> when \<open>maxConcurrency > 0\<close>.\<close>

definition active :: "traversal_state \<Rightarrow> int" where
  "active s =
     (if coordinator s = CoordinatorReturned then 0 else 1) + int (length (workers s))"

definition may_go :: "traversal_state \<Rightarrow> bool" where
  "may_go s =
     (if maxConcurrency (traversal s) > 0
      then active s < maxConcurrency (traversal s) + 1 else True)"

text \<open>One step of the loop of \<open>run\<close>.  \<open>None\<close>: no step (the loop is over, \<open>eg.Go\<close>
  blocks at the limit, or the filter panics).\<close>

fun run_step :: "range_order \<Rightarrow> run_pc \<Rightarrow> traversal_state \<Rightarrow> (run_pc \<times> traversal_state) option" where
  "run_step rng (Filter []) s = None"
| "run_step rng (Filter (node # nodes)) s =
     (case filterAdjacentByStatusFn (traversal s) rng (graph s) node
             (adjacentServiceStatusToSkip (traversal s)) of
        Inl _ \<Rightarrow> None
      | Inr adjacent \<Rightarrow>
          if length adjacent \<noteq> 0 then Some (Filter nodes, s)
          else Some (Consume node nodes, s))"
| "run_step rng (Consume node nodes) s =
     (case consume (traversal s) node of
        (False, t') \<Rightarrow> Some (Filter nodes, s\<lparr>traversal := t'\<rparr>)
      | (True, t') \<Rightarrow> Some (Go node nodes, s\<lparr>traversal := t'\<rparr>))"
| "run_step rng (Go node nodes) s =
     (if may_go s
      then Some (Filter nodes, s\<lparr>workers := workers s @ [(node, Spawned)]\<rparr>)
      else None)"

text \<open>
  The steps.  \<open>receive\<close> and \<open>receive_last\<close> are the rendezvous of a worker's
  \<open>nodeCh <- node\<close> with the coordinator's receive, followed by \<open>expect--\<close> and the test
  \<open>expect == 0\<close>.  \<open>worker_return\<close> is the return of the worker's function to the
  errgroup, which records the first non-nil error and cancels the context.
  \<open>main_wait\<close> is the return of \<open>eg.Wait\<close>.  \<open>cancel\<close> is the cancellation of the
  caller's context from outside.
\<close>

inductive step :: "range_order \<Rightarrow> traversal_state \<Rightarrow> traversal_state \<Rightarrow> bool"
  for rng :: range_order where
  main_run:
    "main s = MainRun pc \<Longrightarrow> run_step rng pc s = Some (pc', s') \<Longrightarrow>
     step rng s (s'\<lparr>main := MainRun pc'\<rparr>)"
| main_run_done:
    "main s = MainRun (Filter []) \<Longrightarrow> step rng s (s\<lparr>main := MainWait\<rparr>)"
| main_wait:
    "main s = MainWait \<Longrightarrow> coordinator s = CoordinatorReturned \<Longrightarrow> workers s = [] \<Longrightarrow>
     step rng s (s\<lparr>main := MainReturned (eg_err s), ctx_done := True\<rparr>)"
| coordinator_run:
    "coordinator s = CoordinatorRun pc \<Longrightarrow> run_step rng pc s = Some (pc', s') \<Longrightarrow>
     step rng s (s'\<lparr>coordinator := CoordinatorRun pc'\<rparr>)"
| coordinator_run_done:
    "coordinator s = CoordinatorRun (Filter []) \<Longrightarrow> step rng s (s\<lparr>coordinator := Receive\<rparr>)"
| receive_last:
    "coordinator s = Receive \<Longrightarrow> workers s = ws @ (node, Sending err) # ws' \<Longrightarrow>
     expect s - 1 = 0 \<Longrightarrow>
     step rng s (s\<lparr>expect := expect s - 1, nodeCh_closed := True,
                    coordinator := CoordinatorReturned,
                    workers := ws @ (node, Sent err) # ws'\<rparr>)"
| receive:
    "coordinator s = Receive \<Longrightarrow> workers s = ws @ (node, Sending err) # ws' \<Longrightarrow>
     expect s - 1 \<noteq> 0 \<Longrightarrow> map_of (Vertices (graph s)) node = Some vertex \<Longrightarrow>
     step rng s (s\<lparr>expect := expect s - 1,
                    coordinator := CoordinatorRun (Filter (adjacentNodesFn (traversal s) rng vertex)),
                    workers := ws @ (node, Sent err) # ws'\<rparr>)"
| invoke:
    "workers s = ws @ (node, Spawned) # ws' \<Longrightarrow>
     step rng s (s\<lparr>workers := ws @ (node, Visiting) # ws', visited := visited s @ [node]\<rparr>)"
| visitor_nil:
    "workers s = ws @ (node, Visiting) # ws' \<Longrightarrow>
     map_of (Vertices (graph s)) node = Some vertex \<Longrightarrow>
     visitorFn (traversal s) (ctx_done s) (Service vertex) = None \<Longrightarrow>
     UpdateStatus (graph s) node (targetServiceStatus (traversal s)) = Inr g' \<Longrightarrow>
     step rng s (s\<lparr>graph := g', workers := ws @ (node, Sending None) # ws'\<rparr>)"
| visitor_error:
    "workers s = ws @ (node, Visiting) # ws' \<Longrightarrow>
     map_of (Vertices (graph s)) node = Some vertex \<Longrightarrow>
     visitorFn (traversal s) (ctx_done s) (Service vertex) = Some err \<Longrightarrow>
     step rng s (s\<lparr>workers := ws @ (node, Sending (Some err)) # ws'\<rparr>)"
| worker_return:
    "workers s = ws @ (node, Sent err) # ws' \<Longrightarrow>
     step rng s (s\<lparr>workers := ws @ ws',
                    eg_err := (if err \<noteq> None \<and> eg_err s = None then err else eg_err s),
                    ctx_done := (ctx_done s \<or> err \<noteq> None)\<rparr>)"
| cancel:
    "step rng s (s\<lparr>ctx_done := True\<rparr>)"

text \<open>The state in which \<open>graphTraversal.visit\<close> starts the goroutines, or, for a
  graph without vertices, the state in which it has returned nil.\<close>

definition visit_start :: "range_order \<Rightarrow> graphTraversal \<Rightarrow> Graph \<Rightarrow> traversal_state" where
  "visit_start rng t g =
     (if length (Vertices g) = 0
      then \<lparr>traversal = t, graph = g, expect = int (length (Vertices g)),
            main = MainReturned None,
            coordinator = CoordinatorReturned, workers = [], nodeCh_closed = False,
            eg_err = None, ctx_done = False, visited = []\<rparr>
      else \<lparr>traversal = t, graph = g, expect = int (length (Vertices g)),
            main = MainRun (Filter (extremityNodesFn t rng g)),
            coordinator = Receive, workers = [], nodeCh_closed = False,
            eg_err = None, ctx_done = False, visited = []\<rparr>)"

text \<open>The states a traversal of \<open>g\<close> with \<open>t\<close> can be in.\<close>

inductive reachable :: "range_order \<Rightarrow> graphTraversal \<Rightarrow> Graph \<Rightarrow> traversal_state \<Rightarrow> bool"
  for rng :: range_order and t :: graphTraversal and g :: Graph where
  start: "reachable rng t g (visit_start rng t g)"
| after: "reachable rng t g s \<Longrightarrow> step rng s s' \<Longrightarrow> reachable rng t g s'"

text \<open>
  \<open>InDependencyOrder\<close> and \<open>InReverseDependencyOrder\<close>: the error of \<open>NewGraph\<close>, or
  the start of the traversal of the graph it built.  The options are functions that
  change the traversal before it starts.
\<close>

definition InDependencyOrder :: "range_order \<Rightarrow> ServiceConfig list \<Rightarrow> visitor
    \<Rightarrow> (graphTraversal \<Rightarrow> graphTraversal) list \<Rightarrow> failure + traversal_state" where
  "InDependencyOrder rng services fn options =
     (case NewGraph rng services ServiceStopped of
        Inl err \<Rightarrow> Inl err
      | Inr g \<Rightarrow>
          let t = upDirectionTraversal fn;
              t = fold (\<lambda>option t. option t) options t
          in Inr (visit_start rng t g))"

definition InReverseDependencyOrder :: "range_order \<Rightarrow> ServiceConfig list \<Rightarrow> visitor
    \<Rightarrow> failure + traversal_state" where
  "InReverseDependencyOrder rng services fn =
     (case NewGraph rng services ServiceStarted of
        Inl err \<Rightarrow> Inl err
      | Inr g \<Rightarrow>
          let t = downDirectionTraversal fn
          in Inr (visit_start rng t g))"

section \<open>Container watcher (pkg/compose/start.go)\<close>

text \<open>The fields of \<open>moby.Container\<close>, \<open>api.Event\<close>, \<open>moby.ContainerJSON\<close> and
  \<open>api.ContainerEvent\<close> that \<open>watchContainers\<close> reads or writes.  A label map is an
  association list; a timestamp is a number.\<close>

record Container =
  ID :: string
  Names :: "string list"
  Labels :: "(string \<times> string) list"

record Event =
  event_Timestamp :: nat
  event_Container :: string
  event_Status :: string

record ContainerJSON =
  inspected_ID :: string
  inspected_Name :: string
  inspected_Labels :: "(string \<times> string) list"
  inspected_ExitCode :: int
  inspected_Restarting :: bool

text \<open>What \<open>ContainerInspect\<close> answers for the container of an event.\<close>

datatype inspect_result = Inspected ContainerJSON | NotFound | InspectFailed string

datatype ContainerEventType =
  ContainerEventAttach | ContainerEventStopped | ContainerEventRecreated | ContainerEventExit

record ContainerEvent =
  ce_Type :: ContainerEventType
  ce_Container :: string
  ce_ID :: string
  ce_Service :: string
  ce_ExitCode :: int
  ce_Restarting :: bool

text \<open>The calls the watcher makes, in order: the listener with its event, \<open>onStart\<close>
  and \<open>onRecreate\<close> with their arguments.\<close>

datatype effect =
  Listener ContainerEvent
| OnStart Container nat
| OnRecreate Container nat

type_synonym containerWatchFn = "Container \<Rightarrow> nat \<Rightarrow> string option"

text \<open>Modelled from the spec: \<open>api.ServiceLabel\<close> and \<open>api.ContainerReplaceLabel\<close>
  are declared in pkg/api, which is not under src/; the spec names the two labels
  \<open>service\<close> and \<open>container-replace\<close>.\<close>

definition ServiceLabel :: string where
  "ServiceLabel = ''service''"

definition ContainerReplaceLabel :: string where
  "ContainerReplaceLabel = ''container-replace''"

text \<open>Modelled from the spec: \<open>utils.Contains\<close> and \<open>utils.Remove\<close> (pkg/utils is not
  under src/); the spec treats \<open>expected\<close> as a set from which \<open>Remove\<close> takes an ID
  out, so every occurrence goes.\<close>

definition Contains :: "'a list \<Rightarrow> 'a \<Rightarrow> bool" where
  "Contains origin element = (element \<in> set origin)"

definition Remove :: "'a list \<Rightarrow> 'a \<Rightarrow> 'a list" where
  "Remove origin element = filter (\<lambda>v. v \<noteq> element) origin"

text \<open>\<open>m[key]\<close> on a \<open>map[string]string\<close>: the empty string when the key is missing.\<close>

definition label :: "(string \<times> string) list \<Rightarrow> string \<Rightarrow> string" where
  "label m key = (case map_of m key of None \<Rightarrow> [] | Some v \<Rightarrow> v)"

text \<open>\<open>delete(m, key)\<close>.\<close>

definition delete :: "(string \<times> 'v) list \<Rightarrow> string \<Rightarrow> (string \<times> 'v) list" where
  "delete m key = filter (\<lambda>kv. fst kv \<noteq> key) m"

text \<open>The variables the consumer closure shares with \<open>watchContainers\<close>;
  \<open>cancelled\<close> is the state of the context that \<open>stop\<close> cancels.\<close>

record watch_state =
  expected :: "string list"
  watched :: "(string \<times> int) list"
  replaced :: "string list"
  cancelled :: bool
  trace :: "effect list"

definition listener :: "ContainerEvent \<Rightarrow> watch_state \<Rightarrow> watch_state" where
  "listener ev w = w\<lparr>trace := trace w @ [Listener ev]\<rparr>"

text \<open>The four cases of \<open>switch event.Status\<close>.  Each returns the error of an early
  \<open>return err\<close>, if any, and the variables as the case leaves them.\<close>

definition case_stop :: "Container \<Rightarrow> string \<Rightarrow> string \<Rightarrow> watch_state \<Rightarrow> string option \<times> watch_state" where
  "case_stop container name service w =
     (let w = (if map_of (watched w) (ID container) \<noteq> None
               then let eType = (if Contains (replaced w) (ID container)
                                 then ContainerEventRecreated else ContainerEventStopped)
                    in listener \<lparr>ce_Type = eType, ce_Container = name, ce_ID = ID container,
                          ce_Service = service, ce_ExitCode = 0, ce_Restarting = False\<rparr> w
               else w)
      in (None, w\<lparr>watched := delete (watched w) (ID container),
                   expected := Remove (expected w) (ID container)\<rparr>))"

definition case_die :: "ContainerJSON \<Rightarrow> Container \<Rightarrow> string \<Rightarrow> string \<Rightarrow> watch_state
    \<Rightarrow> string option \<times> watch_state" where
  "case_die inspected container name service w =
     (let restarted = (case map_of (watched w) (ID container) of None \<Rightarrow> 0 | Some n \<Rightarrow> n);
          w = w\<lparr>watched := assign (ID container) (restarted + 1) (watched w)\<rparr>;
          willRestart = inspected_Restarting inspected;
          eType = (if Contains (replaced w) (ID container)
                   then ContainerEventRecreated else ContainerEventExit);
          w = listener \<lparr>ce_Type = eType, ce_Container = name, ce_ID = ID container,
                ce_Service = service, ce_ExitCode = inspected_ExitCode inspected,
                ce_Restarting = willRestart\<rparr> w
      in if \<not> willRestart
         then (None, w\<lparr>watched := delete (watched w) (ID container),
                        expected := Remove (expected w) (ID container)\<rparr>)
         else (None, w))"

definition case_start :: "containerWatchFn \<Rightarrow> Event \<Rightarrow> Container \<Rightarrow> watch_state
    \<Rightarrow> string option \<times> watch_state" where
  "case_start onStart event container w =
     (let found = map_of (watched w) (ID container);
          mustAttach = (case found of None \<Rightarrow> False | Some cnt \<Rightarrow> cnt > 0);
          (w, mustAttach) =
            (if found = None
             then (w\<lparr>watched := assign (ID container) 0 (watched w),
                      expected := expected w @ [ID container]\<rparr>, True)
             else (w, mustAttach))
      in if mustAttach
         then (onStart container (event_Timestamp event),
               w\<lparr>trace := trace w @ [OnStart container (event_Timestamp event)]\<rparr>)
         else (None, w))"

definition case_create :: "containerWatchFn \<Rightarrow> Event \<Rightarrow> ContainerJSON \<Rightarrow> Container \<Rightarrow> watch_state
    \<Rightarrow> string option \<times> watch_state" where
  "case_create onRecreate event inspected container w =
     (case map_of (Labels container) ContainerReplaceLabel of
        None \<Rightarrow> (None, w)
      | Some id' \<Rightarrow>
          (let w = w\<lparr>replaced := replaced w @ [id']\<rparr>;
               err = onRecreate container (event_Timestamp event);
               w = w\<lparr>trace := trace w @ [OnRecreate container (event_Timestamp event)]\<rparr>
           in if err \<noteq> None then (err, w)
              else
                let w = (if StringContains (expected w) id'
                         then w\<lparr>expected := expected w @ [inspected_ID inspected]\<rparr> else w);
                    w = w\<lparr>watched := assign (ID container) 1 (watched w)\<rparr>;
                    w = (if Contains (expected w) id'
                         then w\<lparr>expected := expected w @ [ID container]\<rparr> else w)
                in (None, w)))"

text \<open>The consumer closure.  \<open>nameOf\<close> stands for \<open>getContainerNameWithoutProject\<close>,
  which is not under src/.  The result is the error the closure returns.\<close>

definition consumer :: "(Container \<Rightarrow> string) \<Rightarrow> containerWatchFn \<Rightarrow> containerWatchFn
    \<Rightarrow> watch_state \<Rightarrow> Event \<Rightarrow> inspect_result \<Rightarrow> string option \<times> watch_state" where
  "consumer nameOf onStart onRecreate w event answer =
     (case answer of
        NotFound \<Rightarrow>
          (None, w\<lparr>watched := delete (watched w) (event_Container event),
                    expected := Remove (expected w) (event_Container event)\<rparr>)
      | InspectFailed err \<Rightarrow> (Some err, w)
      | Inspected inspected \<Rightarrow>
          (let container = \<lparr>ID = inspected_ID inspected, Names = [inspected_Name inspected],
                            Labels = inspected_Labels inspected\<rparr>;
               name = nameOf container;
               service = label (Labels container) ServiceLabel;
               (err, w) =
                 (if event_Status event = ''stop'' then case_stop container name service w
                  else if event_Status event = ''die''
                  then case_die inspected container name service w
                  else if event_Status event = ''start'' then case_start onStart event container w
                  else if event_Status event = ''create''
                  then case_create onRecreate event inspected container w
                  else (None, w))
           in if err \<noteq> None then (err, w)
              else if length (expected w) = 0 then (None, w\<lparr>cancelled := True\<rparr>)
              else (None, w)))"

text \<open>What reaches the subscription: an engine event with the answer that
  \<open>ContainerInspect\<close> gives for it, or the cancellation of the caller's context.\<close>

datatype occurrence = Engine Event inspect_result | ContextCancelled

text \<open>Modelled from the spec: \<open>composeService.Events\<close> is not under src/.  It is a
  synchronous subscription that invokes the consumer per event, in arrival order; an
  error from the consumer or a cancelled context stops it.  The result \<open>None\<close> is a
  subscription that is still waiting for events when the occurrences end.\<close>

fun Events :: "(watch_state \<Rightarrow> Event \<Rightarrow> inspect_result \<Rightarrow> string option \<times> watch_state)
    \<Rightarrow> watch_state \<Rightarrow> occurrence list \<Rightarrow> string option option \<times> watch_state" where
  "Events c w [] = (if cancelled w then (Some (Some ''context canceled''), w) else (None, w))"
| "Events c w (ContextCancelled # rest) = (Some (Some ''context canceled''), w\<lparr>cancelled := True\<rparr>)"
| "Events c w (Engine event answer # rest) =
     (if cancelled w then (Some (Some ''context canceled''), w)
      else case c w event answer of
             (Some err, w') \<Rightarrow> (Some (Some err), w')
           | (None, w') \<Rightarrow> Events c w' rest)"

text \<open>Lines 163 to 168: the seeding of \<open>expected\<close> and \<open>watched\<close>.\<close>

definition seed :: "string list \<Rightarrow> Container list \<Rightarrow> watch_state" where
  "seed required containers =
     fold (\<lambda>c w.
        let w = (if Contains required (label (Labels c) ServiceLabel)
                 then w\<lparr>expected := expected w @ [ID c]\<rparr> else w)
        in w\<lparr>watched := assign (ID c) 0 (watched w)\<rparr>)
       containers
       \<lparr>expected = [], watched = [], replaced = [], cancelled = False, trace = []\<rparr>"

text \<open>
  The outcome of \<open>watchContainers\<close>: \<open>returned = None\<close> while it is still inside
  \<open>Events\<close>, \<open>Some err\<close> once it has returned \<open>err\<close> (\<open>Some None\<close> for nil);
  \<open>subscribed\<close> tells whether \<open>Events\<close> was called; \<open>final\<close> holds the variables
  and the calls made.
\<close>

record watch_outcome =
  returned :: "string option option"
  subscribed :: bool
  final :: watch_state

definition watchContainers :: "(Container \<Rightarrow> string) \<Rightarrow> string list \<Rightarrow> string list
    \<Rightarrow> Container list \<Rightarrow> containerWatchFn \<Rightarrow> containerWatchFn \<Rightarrow> occurrence list \<Rightarrow> watch_outcome" where
  "watchContainers nameOf services required containers onStart onRecreate occurrences =
     (if length containers = 0
      then \<lparr>returned = Some None, subscribed = False,
            final = \<lparr>expected = [], watched = [], replaced = [], cancelled = False, trace = []\<rparr>\<rparr>
      else
        let required = (if length required = 0 then services else required);
            w = seed required containers;
            (err, w) = Events (consumer nameOf onStart onRecreate) w occurrences
        in \<lparr>returned = (case err of
                           None \<Rightarrow> None
                         | Some err \<Rightarrow> if cancelled w then Some None else Some err),
            subscribed = True, final = w\<rparr>)"

section \<open>Vocabulary of the properties\<close>

subsection \<open>Vocabulary of the graph properties\<close>

definition keys :: "Graph \<Rightarrow> string set" where
  "keys g = fst ` set (Vertices g)"

text \<open>The edges of a graph: \<open>(k, c)\<close> when \<open>c\<close> is a child of the vertex stored under \<open>k\<close>.\<close>

definition graph_edges :: "Graph \<Rightarrow> (string \<times> string) set" where
  "graph_edges g = {(k, c). \<exists>v. map_of (Vertices g) k = Some v \<and> c \<in> set (Children v)}"

text \<open>The edges an input declares: a service and one of its dependencies.\<close>

definition dependency_edges :: "ServiceConfig list \<Rightarrow> (string \<times> string) set" where
  "dependency_edges services =
     {(a, d). \<exists>s. s \<in> set services \<and> a = Name s \<and> d \<in> set (Dependencies s)}"

text \<open>What \<open>NewGraph\<close> establishes: a map (no key twice), every vertex under its own
  key, and every child and parent a key of the graph.\<close>

definition wf_graph :: "Graph \<Rightarrow> bool" where
  "wf_graph g =
     (distinct (map fst (Vertices g)) \<and>
      (\<forall>k v. map_of (Vertices g) k = Some v \<longrightarrow>
         Key v = k \<and> Service v = k \<and> set (Children v) \<subseteq> keys g \<and> set (Parents v) \<subseteq> keys g))"

text \<open>A service with the dependencies that name no service of the input left out.\<close>

definition known_dependencies :: "ServiceConfig list \<Rightarrow> ServiceConfig \<Rightarrow> ServiceConfig" where
  "known_dependencies services s =
     s\<lparr>Dependencies := filter (\<lambda>d. d \<in> Name ` set services) (Dependencies s)\<rparr>"

definition fresh_graph :: "ServiceStatus \<Rightarrow> Graph \<Rightarrow> bool" where
  "fresh_graph st g =
     (distinct (map fst (Vertices g)) \<and>
      (\<forall>k v. map_of (Vertices g) k = Some v \<longrightarrow>
         Key v = k \<and> Service v = k \<and> Status v = st \<and> Children v = [] \<and> Parents v = []))"

definition all_status :: "ServiceStatus \<Rightarrow> Graph \<Rightarrow> bool" where
  "all_status st g = (\<forall>k v. map_of (Vertices g) k = Some v \<longrightarrow> Status v = st)"

definition edge_step :: "string \<Rightarrow> string \<Rightarrow> Graph \<Rightarrow> Graph" where
  "edge_step a name g = (case AddEdge g a name of Inl _ \<Rightarrow> g | Inr g' \<Rightarrow> g')"

text \<open>The graph NewGraph hands to the cycle search.\<close>

definition built :: "ServiceConfig list \<Rightarrow> ServiceStatus \<Rightarrow> Graph" where
  "built services st =
     fold add_edges services
       (fold (\<lambda>s g. AddVertex g (Name s) (Name s) st) services \<lparr>Vertices = []\<rparr>)"

definition cycle_message :: "string list \<Rightarrow> failure" where
  "cycle_message p = Error (''cycle found: '' @ strings_Join p '' -> '')"

text \<open>A key from which the edges lead into a cycle.\<close>

definition leads_to_cycle :: "Graph \<Rightarrow> string \<Rightarrow> bool" where
  "leads_to_cycle g v = (\<exists>w. (v, w) \<in> (graph_edges g)\<^sup>* \<and> (w, w) \<in> (graph_edges g)\<^sup>+)"

subsection \<open>The recreation scenario of the watcher\<close>

text \<open>Initial containers \<open>[c1]\<close> of service \<open>a\<close>, \<open>required = [a]\<close>, and the events
  \<open>create(c2, replace = c1)\<close>, \<open>stop(c1)\<close>, \<open>start(c2)\<close>, each inspected with
  success.  Both callbacks return nil, as the ones \<open>start\<close> passes do for a listener
  that attaches.\<close>

definition scenario_c1 :: Container where
  "scenario_c1 = \<lparr>ID = ''c1'', Names = [''/a-1''], Labels = [(ServiceLabel, ''a'')]\<rparr>"

definition scenario_inspect_c1 :: ContainerJSON where
  "scenario_inspect_c1 =
     \<lparr>inspected_ID = ''c1'', inspected_Name = ''/a-1'',
      inspected_Labels = [(ServiceLabel, ''a'')],
      inspected_ExitCode = 0, inspected_Restarting = False\<rparr>"

definition scenario_inspect_c2 :: ContainerJSON where
  "scenario_inspect_c2 =
     \<lparr>inspected_ID = ''c2'', inspected_Name = ''/a-1'',
      inspected_Labels = [(ServiceLabel, ''a''), (ContainerReplaceLabel, ''c1'')],
      inspected_ExitCode = 0, inspected_Restarting = False\<rparr>"

definition scenario_c2 :: Container where
  "scenario_c2 =
     \<lparr>ID = ''c2'', Names = [''/a-1''],
      Labels = [(ServiceLabel, ''a''), (ContainerReplaceLabel, ''c1'')]\<rparr>"

definition scenario_events :: "occurrence list" where
  "scenario_events =
     [Engine \<lparr>event_Timestamp = 1, event_Container = ''c2'', event_Status = ''create''\<rparr>
        (Inspected scenario_inspect_c2),
      Engine \<lparr>event_Timestamp = 2, event_Container = ''c1'', event_Status = ''stop''\<rparr>
        (Inspected scenario_inspect_c1),
      Engine \<lparr>event_Timestamp = 3, event_Container = ''c2'', event_Status = ''start''\<rparr>
        (Inspected scenario_inspect_c2)]"

definition scenario_outcome :: watch_outcome where
  "scenario_outcome =
     watchContainers (\<lambda>c. hd (Names c)) [''a''] [''a''] [scenario_c1]
       (\<lambda>c t. None) (\<lambda>c t. None) scenario_events"

subsection \<open>Vocabulary of the traversal properties\<close>

text \<open>The positions inside \<open>run\<close> of the caller and of the coordinator.\<close>

definition run_pcs :: "traversal_state \<Rightarrow> run_pc list" where
  "run_pcs s =
     (case main s of MainRun pc \<Rightarrow> [pc] | _ \<Rightarrow> []) @
     (case coordinator s of CoordinatorRun pc \<Rightarrow> [pc] | _ \<Rightarrow> [])"

text \<open>The node a position has consumed and not yet handed to \<open>eg.Go\<close>.\<close>

fun consumed_node :: "run_pc \<Rightarrow> string list" where
  "consumed_node (Go node nodes) = [node]"
| "consumed_node _ = []"

text \<open>The node of a position that has passed the status filter.\<close>

fun filtered_node :: "run_pc \<Rightarrow> string list" where
  "filtered_node (Consume node nodes) = [node]"
| "filtered_node (Go node nodes) = [node]"
| "filtered_node _ = []"


text \<open>The nodes that are consumed and whose visitor is not yet invoked.\<close>

definition pending :: "traversal_state \<Rightarrow> string list" where
  "pending s =
     concat (map consumed_node (run_pcs s)) @
     map fst (filter (\<lambda>w. snd w = Spawned) (workers s))"

text \<open>The workers whose node the coordinator has not received yet.\<close>

definition unreceived :: "traversal_state \<Rightarrow> (string \<times> worker_pc) list" where
  "unreceived s =
     filter (\<lambda>w. case snd w of Visiting \<Rightarrow> True | Sending _ \<Rightarrow> True | _ \<Rightarrow> False) (workers s)"

text \<open>The two graphs differ in the status of their vertices only.\<close>

definition same_shape :: "Graph \<Rightarrow> Graph \<Rightarrow> bool" where
  "same_shape g g' =
     (map (\<lambda>kv. (fst kv, (snd kv)\<lparr>Status := ServiceStopped\<rparr>)) (Vertices g')
      = map (\<lambda>kv. (fst kv, (snd kv)\<lparr>Status := ServiceStopped\<rparr>)) (Vertices g))"

text \<open>A traversal that goes up or down: the functions and the statuses are the ones of
  \<open>upDirectionTraversal\<close> or of \<open>downDirectionTraversal\<close>, whatever the visitor, the
  limit and the seen-set.\<close>

definition goes_up :: "graphTraversal \<Rightarrow> bool" where
  "goes_up t =
     (extremityNodesFn t = Leaves \<and> adjacentNodesFn t = GetParents \<and>
      filterAdjacentByStatusFn t = FilterChildren \<and>
      targetServiceStatus t = ServiceStarted \<and> adjacentServiceStatusToSkip t = ServiceStopped)"

definition goes_down :: "graphTraversal \<Rightarrow> bool" where
  "goes_down t =
     (extremityNodesFn t = Roots \<and> adjacentNodesFn t = GetChildren \<and>
      filterAdjacentByStatusFn t = FilterParents \<and>
      targetServiceStatus t = ServiceStopped \<and> adjacentServiceStatusToSkip t = ServiceStarted)"

text \<open>No node is consumed twice: the invoked and the pending nodes are all different,
  and all in the seen-set.\<close>

definition once :: "traversal_state \<Rightarrow> bool" where
  "once s = (distinct (visited s @ pending s) \<and> set (visited s @ pending s) \<subseteq> seen (traversal s))"

text \<open>The configuration of the traversal is the one it started with; only the seen-set
  and the statuses of the vertices change.\<close>

definition unchanged :: "graphTraversal \<Rightarrow> Graph \<Rightarrow> traversal_state \<Rightarrow> bool" where
  "unchanged t g s = ((traversal s)\<lparr>seen := seen t\<rparr> = t \<and> same_shape g (graph s))"

text \<open>A node is ready when the status filter finds no neighbour to wait for.\<close>

definition ready :: "range_order \<Rightarrow> graphTraversal \<Rightarrow> Graph \<Rightarrow> string \<Rightarrow> bool" where
  "ready rng t g node =
     (filterAdjacentByStatusFn t rng g node (adjacentServiceStatusToSkip t) = Inr [])"

definition all_ready :: "range_order \<Rightarrow> graphTraversal \<Rightarrow> traversal_state \<Rightarrow> bool" where
  "all_ready rng t s =
     ((\<forall>pc \<in> set (run_pcs s). \<forall>node \<in> set (filtered_node pc). ready rng t (graph s) node) \<and>
      (\<forall>w \<in> set (workers s). ready rng t (graph s) (fst w)) \<and>
      set (visited s) \<subseteq> keys (graph s))"

text \<open>The countdown: \<open>expect\<close> is the number of vertices less the nodes received,
  which are the invoked ones less those whose worker has not sent yet; \<open>expect\<close> is
  zero exactly when the coordinator has returned; and \<open>eg.Wait\<close> returns the recorded
  error after every goroutine has returned.\<close>

definition countdown :: "Graph \<Rightarrow> traversal_state \<Rightarrow> bool" where
  "countdown g s =
     (int (length (Vertices g)) - expect s = int (length (visited s)) - int (length (unreceived s)) \<and>
      (if coordinator s = CoordinatorReturned then expect s = 0 else expect s > 0) \<and>
      (\<forall>r. main s = MainReturned r \<longrightarrow>
         coordinator s = CoordinatorReturned \<and> workers s = [] \<and> r = eg_err s))"

text \<open>A node is excused when its worker is still inside the visitor, or has an error
  to send or to return.\<close>

definition excused :: "(string \<times> worker_pc) list \<Rightarrow> string \<Rightarrow> bool" where
  "excused ws node =
     ((node, Visiting) \<in> set ws \<or>
      (\<exists>err. (node, Sending (Some err)) \<in> set ws \<or> (node, Sent (Some err)) \<in> set ws))"

text \<open>Every invoked node has the target status, unless it is excused or the errgroup
  has recorded an error.\<close>

definition settled :: "graphTraversal \<Rightarrow> traversal_state \<Rightarrow> bool" where
  "settled t s =
     (\<forall>node \<in> set (visited s).
        has_status (graph s) (targetServiceStatus t) node \<or> eg_err s \<noteq> None \<or>
        excused (workers s) node)"

subsection \<open>Schedules\<close>

text \<open>A schedule names the goroutine that takes each step: the caller, the coordinator,
  or the worker at a position of \<open>workers\<close>.  \<open>perform\<close> is the step that goroutine
  takes, if it has one.\<close>

datatype action = Main | Coordinator | Worker nat

definition perform_main :: "range_order \<Rightarrow> traversal_state \<Rightarrow> traversal_state option" where
  "perform_main rng s =
     (case main s of
        MainRun pc \<Rightarrow>
          (if pc = Filter [] then Some (s\<lparr>main := MainWait\<rparr>)
           else case run_step rng pc s of
                  None \<Rightarrow> None
                | Some (pc', s') \<Rightarrow> Some (s'\<lparr>main := MainRun pc'\<rparr>))
      | MainWait \<Rightarrow>
          (if coordinator s = CoordinatorReturned \<and> workers s = []
           then Some (s\<lparr>main := MainReturned (eg_err s), ctx_done := True\<rparr>) else None)
      | MainReturned _ \<Rightarrow> None)"

definition perform_coordinator :: "range_order \<Rightarrow> traversal_state \<Rightarrow> traversal_state option" where
  "perform_coordinator rng s =
     (case coordinator s of
        CoordinatorRun pc \<Rightarrow>
          (if pc = Filter [] then Some (s\<lparr>coordinator := Receive\<rparr>)
           else case run_step rng pc s of
                  None \<Rightarrow> None
                | Some (pc', s') \<Rightarrow> Some (s'\<lparr>coordinator := CoordinatorRun pc'\<rparr>))
      | _ \<Rightarrow> None)"

definition perform_worker :: "range_order \<Rightarrow> nat \<Rightarrow> traversal_state \<Rightarrow> traversal_state option" where
  "perform_worker rng i s =
     (if i < length (workers s)
      then
        let ws = take i (workers s); ws' = drop (Suc i) (workers s);
            node = fst (workers s ! i)
        in case snd (workers s ! i) of
             Spawned \<Rightarrow>
               Some (s\<lparr>workers := ws @ (node, Visiting) # ws', visited := visited s @ [node]\<rparr>)
           | Visiting \<Rightarrow>
               (case map_of (Vertices (graph s)) node of
                  None \<Rightarrow> None
                | Some vertex \<Rightarrow>
                    (case visitorFn (traversal s) (ctx_done s) (Service vertex) of
                       None \<Rightarrow>
                         (case UpdateStatus (graph s) node (targetServiceStatus (traversal s)) of
                            Inl _ \<Rightarrow> None
                          | Inr g' \<Rightarrow>
                              Some (s\<lparr>graph := g', workers := ws @ (node, Sending None) # ws'\<rparr>))
                     | Some err \<Rightarrow>
                         Some (s\<lparr>workers := ws @ (node, Sending (Some err)) # ws'\<rparr>)))
           | Sending err \<Rightarrow>
               (if coordinator s \<noteq> Receive then None
                else if expect s - 1 = 0
                then Some (s\<lparr>expect := expect s - 1, nodeCh_closed := True,
                             coordinator := CoordinatorReturned,
                             workers := ws @ (node, Sent err) # ws'\<rparr>)
                else case map_of (Vertices (graph s)) node of
                       None \<Rightarrow> None
                     | Some vertex \<Rightarrow>
                         Some (s\<lparr>expect := expect s - 1,
                                  coordinator := CoordinatorRun
                                    (Filter (adjacentNodesFn (traversal s) rng vertex)),
                                  workers := ws @ (node, Sent err) # ws'\<rparr>))
           | Sent err \<Rightarrow>
               Some (s\<lparr>workers := ws @ ws',
                        eg_err := (if err \<noteq> None \<and> eg_err s = None then err else eg_err s),
                        ctx_done := (ctx_done s \<or> err \<noteq> None)\<rparr>)
      else None)"

fun perform :: "range_order \<Rightarrow> action \<Rightarrow> traversal_state \<Rightarrow> traversal_state option" where
  "perform rng Main s = perform_main rng s"
| "perform rng Coordinator s = perform_coordinator rng s"
| "perform rng (Worker i) s = perform_worker rng i s"

text \<open>The state after a schedule; a schedule stops at the first action that has no
  step.\<close>

fun after_schedule :: "range_order \<Rightarrow> action list \<Rightarrow> traversal_state \<Rightarrow> traversal_state" where
  "after_schedule rng [] s = s"
| "after_schedule rng (a # as) s =
     (case perform rng a s of None \<Rightarrow> s | Some s' \<Rightarrow> after_schedule rng as s')"

subsection \<open>The diamond\<close>

text \<open>\<open>A\<close> depends on \<open>B\<close> and \<open>C\<close>, which depend on \<open>D\<close>.  One visitor succeeds
  everywhere, the other returns the error \<open>X\<close> for \<open>C\<close>.  The first schedule runs the
  up-traversal to the end, one worker at a time; the second is the same up to the
  failure of \<open>C\<close>.\<close>

definition diamond :: "ServiceConfig list" where
  "diamond =
     [\<lparr>Name = ''A'', Dependencies = [''B'', ''C'']\<rparr>,
      \<lparr>Name = ''B'', Dependencies = [''D'']\<rparr>,
      \<lparr>Name = ''C'', Dependencies = [''D'']\<rparr>,
      \<lparr>Name = ''D'', Dependencies = []\<rparr>]"

definition succeeds :: visitor where
  "succeeds d name = None"

definition fails_on_C :: visitor where
  "fails_on_C d name = (if name = ''C'' then Some ''X'' else None)"

definition diamond_schedule :: "action list" where
  "diamond_schedule =
     [Main, Main, Main, Main,
      Worker 0, Worker 0, Worker 0, Worker 0,
      Coordinator, Coordinator, Coordinator, Coordinator, Coordinator, Coordinator, Coordinator,
      Worker 0, Worker 0, Worker 0, Coordinator, Coordinator, Worker 0,
      Worker 0, Worker 0, Worker 0, Coordinator, Coordinator, Coordinator, Coordinator, Worker 0,
      Worker 0, Worker 0, Worker 0, Worker 0,
      Main]"

definition diamond_done :: traversal_state where
  "diamond_done =
     after_schedule (\<lambda>ks. ks) diamond_schedule
       (visit_start (\<lambda>ks. ks) (upDirectionTraversal succeeds) (built diamond ServiceStopped))"

definition diamond_failure_schedule :: "action list" where
  "diamond_failure_schedule =
     [Main, Main, Main, Main,
      Worker 0, Worker 0, Worker 0, Worker 0,
      Coordinator, Coordinator, Coordinator, Coordinator, Coordinator, Coordinator, Coordinator,
      Worker 0, Worker 0, Worker 0, Coordinator, Coordinator, Worker 0,
      Worker 0, Worker 0, Worker 0, Coordinator, Coordinator, Worker 0]"

definition diamond_stuck :: traversal_state where
  "diamond_stuck =
     after_schedule (\<lambda>ks. ks) diamond_failure_schedule
       (visit_start (\<lambda>ks. ks) (upDirectionTraversal fails_on_C) (built diamond ServiceStopped))"

text \<open>The state of the first schedule just before the worker of \<open>A\<close> calls the
  visitor.\<close>

definition diamond_before_A :: traversal_state where
  "diamond_before_A =
     after_schedule (\<lambda>ks. ks) (take 29 diamond_schedule)
       (visit_start (\<lambda>ks. ks) (upDirectionTraversal succeeds) (built diamond ServiceStopped))"
section \<open>Properties of the dependency graph\<close>


subsection \<open>Maps as association lists\<close>

lemma map_of_assign: "map_of (assign key v m) = (map_of m)(key \<mapsto> v)"
  by (induction m) (auto simp: fun_eq_iff)

lemma keys_assign: "fst ` set (assign key v m) = insert key (fst ` set m)"
  using arg_cong[OF map_of_assign[of key v m], of dom]
  by (simp add: dom_map_of_conv_image_fst)

lemma distinct_assign: "distinct (map fst m) \<Longrightarrow> distinct (map fst (assign key v m))"
  by (induction m) (auto simp: keys_assign)

lemma map_of_modify:
  "map_of (Vertices (modify g key f)) k
     = (if k = key then map_option f (map_of (Vertices g) k) else map_of (Vertices g) k)"
proof -
  have "map_of (map (\<lambda>(k, v). if k = key then (k, f v) else (k, v)) m) k
     = (if k = key then map_option f (map_of m k) else map_of m k)" for m
    by (induction m) auto
  then show ?thesis by (simp add: modify_def)
qed

lemma fst_modify: "map fst (Vertices (modify g key f)) = map fst (Vertices g)"
  by (simp add: modify_def case_prod_unfold if_distrib[of fst] cong: if_cong)

lemma keys_modify: "keys (modify g key f) = keys g"
  using arg_cong[OF fst_modify[of g key f], of set] by (simp add: keys_def)

lemma keys_conv_dom: "keys g = dom (map_of (Vertices g))"
  by (simp add: keys_def dom_map_of_conv_image_fst)

lemma lookup_Some_keys: "map_of (Vertices g) k = Some v \<Longrightarrow> k \<in> keys g"
  by (auto simp: keys_conv_dom)

subsection \<open>AddEdge\<close>

lemma AddEdge_fst: "AddEdge g a d = Inr g' \<Longrightarrow> map fst (Vertices g') = map fst (Vertices g)"
  by (auto simp: AddEdge_def fst_modify split: option.splits if_splits)

lemma AddEdge_keys: "AddEdge g a d = Inr g' \<Longrightarrow> keys g' = keys g"
  using arg_cong[OF AddEdge_fst, of g a d g' set] by (simp add: keys_def)

lemma AddEdge_unknown:
  "d \<notin> keys g \<Longrightarrow> AddEdge g a d
     = Inl (Error (''could not find '' @ (if a \<in> keys g then d else a)))"
  by (auto simp: AddEdge_def keys_conv_dom split: option.splits)

lemma AddEdge_known:
  "a \<in> keys g \<Longrightarrow> d \<in> keys g \<Longrightarrow> \<exists>g'. AddEdge g a d = Inr g'"
  by (auto simp: AddEdge_def keys_conv_dom split: option.splits)

lemma AddEdge_Inr_known: "AddEdge g a d = Inr g' \<Longrightarrow> a \<in> keys g \<and> d \<in> keys g"
  by (auto simp: AddEdge_def keys_conv_dom split: option.splits)

lemma AddEdge_edges:
  assumes "AddEdge g a d = Inr g'"
  shows "graph_edges g' = insert (a, d) (graph_edges g)"
proof -
  obtain sv dv where sv: "map_of (Vertices g) a = Some sv" and dv: "map_of (Vertices g) d = Some dv"
    using assms by (auto simp: AddEdge_def split: option.splits)
  show ?thesis
  proof (cases "d \<in> set (Children sv)")
    case True
    then show ?thesis using assms sv dv by (auto simp: AddEdge_def graph_edges_def)
  next
    case False
    then have g': "g' = modify (modify g a (\<lambda>v. v\<lparr>Children := Children v @ [d]\<rparr>)) d
                        (\<lambda>v. v\<lparr>Parents := Parents v @ [a]\<rparr>)"
      using assms sv dv by (simp add: AddEdge_def)
    show ?thesis
      unfolding g' graph_edges_def using sv dv
      by (auto simp: map_of_modify split: if_splits)
  qed
qed

lemma AddEdge_wf:
  assumes "AddEdge g a d = Inr g'" and "wf_graph g"
  shows "wf_graph g'"
proof -
  obtain sv dv where sv: "map_of (Vertices g) a = Some sv" and dv: "map_of (Vertices g) d = Some dv"
    using assms by (auto simp: AddEdge_def split: option.splits)
  have ka: "a \<in> keys g" and kd: "d \<in> keys g"
    using sv dv by (auto intro: lookup_Some_keys)
  show ?thesis
  proof (cases "d \<in> set (Children sv)")
    case True
    then show ?thesis using assms sv dv by (auto simp: AddEdge_def)
  next
    case False
    then have g': "g' = modify (modify g a (\<lambda>v. v\<lparr>Children := Children v @ [d]\<rparr>)) d
                        (\<lambda>v. v\<lparr>Parents := Parents v @ [a]\<rparr>)"
      using assms sv dv by (simp add: AddEdge_def)
    show ?thesis
      using assms(2) ka kd unfolding g' wf_graph_def
      by (auto simp: map_of_modify fst_modify keys_modify split: if_splits) blast+
  qed
qed

subsection \<open>The two construction loops of NewGraph\<close>

lemma AddVertex_fresh:
  "fresh_graph st g \<Longrightarrow> fresh_graph st (AddVertex g n n st)"
  by (auto simp: fresh_graph_def AddVertex_def NewVertex_def map_of_assign distinct_assign
      simp del: map_of_eq_Some_iff)

lemma AddVertex_keys: "keys (AddVertex g n s st) = insert n (keys g)"
  by (simp add: AddVertex_def keys_def keys_assign)

lemma add_vertices:
  "fresh_graph st g \<Longrightarrow>
   fresh_graph st (fold (\<lambda>s g. AddVertex g (Name s) (Name s) st) services g) \<and>
   keys (fold (\<lambda>s g. AddVertex g (Name s) (Name s) st) services g) = keys g \<union> Name ` set services"
  by (induction services arbitrary: g) (auto simp: AddVertex_fresh AddVertex_keys)

lemma fresh_graph_wf: "fresh_graph st g \<Longrightarrow> wf_graph g"
  by (auto simp: fresh_graph_def wf_graph_def NewVertex_def simp del: map_of_eq_Some_iff)

lemma fresh_graph_edges: "fresh_graph st g \<Longrightarrow> graph_edges g = {}"
  by (auto simp: fresh_graph_def graph_edges_def NewVertex_def simp del: map_of_eq_Some_iff)

lemma fresh_graph_status: "fresh_graph st g \<Longrightarrow> all_status st g"
  by (auto simp: fresh_graph_def all_status_def NewVertex_def simp del: map_of_eq_Some_iff)

lemma AddEdge_all_status:
  "AddEdge g a d = Inr g' \<Longrightarrow> all_status st g \<Longrightarrow> all_status st g'"
  unfolding all_status_def
  by (auto simp: AddEdge_def map_of_modify split: option.splits if_splits)

lemma edge_step_props:
  "keys (edge_step a d g) = keys g"
  "wf_graph g \<Longrightarrow> wf_graph (edge_step a d g)"
  "all_status st g \<Longrightarrow> all_status st (edge_step a d g)"
  "graph_edges (edge_step a d g) = graph_edges g \<union> (if a \<in> keys g \<and> d \<in> keys g then {(a, d)} else {})"
proof -
  show "keys (edge_step a d g) = keys g"
    by (auto simp: edge_step_def AddEdge_keys split: sum.splits)
  show "wf_graph g \<Longrightarrow> wf_graph (edge_step a d g)"
    by (auto simp: edge_step_def AddEdge_wf split: sum.splits)
  show "all_status st g \<Longrightarrow> all_status st (edge_step a d g)"
    by (auto simp: edge_step_def AddEdge_all_status split: sum.splits)
  show "graph_edges (edge_step a d g) = graph_edges g \<union> (if a \<in> keys g \<and> d \<in> keys g then {(a, d)} else {})"
  proof (cases "AddEdge g a d")
    case (Inl e)
    then have "\<not> (a \<in> keys g \<and> d \<in> keys g)"
      using AddEdge_known[of a g d] by auto
    then show ?thesis using Inl by (auto simp: edge_step_def)
  next
    case (Inr g')
    then show ?thesis
      using AddEdge_edges[OF Inr] AddEdge_Inr_known[OF Inr] by (auto simp: edge_step_def)
  qed
qed

lemma add_edges_props:
  "keys (add_edges s g) = keys g"
  "wf_graph g \<Longrightarrow> wf_graph (add_edges s g)"
  "all_status st g \<Longrightarrow> all_status st (add_edges s g)"
  "graph_edges (add_edges s g)
     = graph_edges g \<union> {(a, d). a = Name s \<and> d \<in> set (Dependencies s) \<and> a \<in> keys g \<and> d \<in> keys g}"
proof -
  have eq: "add_edges s g = fold (edge_step (Name s)) (Dependencies s) g"
    by (simp add: add_edges_def edge_step_def[abs_def])
  have k: "keys (fold (edge_step a) ds g) = keys g" for a ds g
    by (induction ds arbitrary: g) (auto simp: edge_step_props)
  show "keys (add_edges s g) = keys g" by (simp add: eq k)
  have "wf_graph g \<Longrightarrow> wf_graph (fold (edge_step a) ds g)" for a ds
    by (induction ds arbitrary: g) (auto simp: edge_step_props)
  then show "wf_graph g \<Longrightarrow> wf_graph (add_edges s g)" by (simp add: eq)
  have "all_status st g \<Longrightarrow> all_status st (fold (edge_step a) ds g)" for a ds
    by (induction ds arbitrary: g) (auto simp: edge_step_props)
  then show "all_status st g \<Longrightarrow> all_status st (add_edges s g)" by (simp add: eq)
  have "graph_edges (fold (edge_step a) ds g)
      = graph_edges g \<union> {(a', d). a' = a \<and> d \<in> set ds \<and> a \<in> keys g \<and> d \<in> keys g}" for a ds
    by (induction ds arbitrary: g) (auto simp: edge_step_props k)
  then show "graph_edges (add_edges s g)
     = graph_edges g \<union> {(a, d). a = Name s \<and> d \<in> set (Dependencies s) \<and> a \<in> keys g \<and> d \<in> keys g}"
    by (auto simp: eq)
qed

lemma fold_add_edges_props:
  "keys (fold add_edges services g) = keys g"
  "wf_graph g \<Longrightarrow> wf_graph (fold add_edges services g)"
  "all_status st g \<Longrightarrow> all_status st (fold add_edges services g)"
  "graph_edges (fold add_edges services g)
     = graph_edges g \<union> {(a, d) \<in> dependency_edges services. a \<in> keys g \<and> d \<in> keys g}"
proof -
  show k: "keys (fold add_edges services g) = keys g" for services g
    by (induction services arbitrary: g) (auto simp: add_edges_props)
  show "wf_graph g \<Longrightarrow> wf_graph (fold add_edges services g)"
    by (induction services arbitrary: g) (auto simp: add_edges_props)
  show "all_status st g \<Longrightarrow> all_status st (fold add_edges services g)"
    by (induction services arbitrary: g) (auto simp: add_edges_props)
  show "graph_edges (fold add_edges services g)
     = graph_edges g \<union> {(a, d) \<in> dependency_edges services. a \<in> keys g \<and> d \<in> keys g}"
    by (induction services arbitrary: g)
      (auto simp: add_edges_props k dependency_edges_def)
qed

lemma NewGraph_built:
  "NewGraph rng services st =
     (case HasCycles rng (built services st) of Some err \<Rightarrow> Inl err | None \<Rightarrow> Inr (built services st))"
  unfolding NewGraph_def built_def Let_def by (rule refl)

lemma built_props:
  "keys (built services st) = Name ` set services"
  "wf_graph (built services st)"
  "all_status st (built services st)"
  "graph_edges (built services st)
     = {(a, d) \<in> dependency_edges services. d \<in> Name ` set services}"
proof -
  let ?g0 = "\<lparr>Vertices = []\<rparr>"
  let ?g1 = "fold (\<lambda>s g. AddVertex g (Name s) (Name s) st) services ?g0"
  have f0: "fresh_graph st ?g0" by (simp add: fresh_graph_def)
  have f1: "fresh_graph st ?g1" and k1: "keys ?g1 = Name ` set services"
    using add_vertices[OF f0, of services] by (auto simp: keys_def)
  show "keys (built services st) = Name ` set services"
    by (simp add: built_def fold_add_edges_props k1)
  show "wf_graph (built services st)"
    unfolding built_def by (intro fold_add_edges_props fresh_graph_wf[OF f1])
  show "all_status st (built services st)"
    unfolding built_def by (intro fold_add_edges_props fresh_graph_status[OF f1])
  have "a \<in> Name ` set services" if "(a, d) \<in> dependency_edges services" for a d
    using that by (auto simp: dependency_edges_def)
  then show "graph_edges (built services st)
     = {(a, d) \<in> dependency_edges services. d \<in> Name ` set services}"
    unfolding built_def by (auto simp: fold_add_edges_props fresh_graph_edges[OF f1] k1)
qed


subsection \<open>The cycle search\<close>

lemma range_ok_set: "range_ok rng \<Longrightarrow> set (rng ks) = set ks"
  by (metis range_ok_def set_mset_mset)

lemma visit_Inr:
  "visit rng g key path D F = Inr r \<Longrightarrow> r = (remove (D @ [key]) key, F @ [key])"
  "visit_children rng g key vs path D F = Inr r \<Longrightarrow> r = (remove D key, F @ [key])"
proof (induction rng g key path D F and rng g key vs path D F
    arbitrary: r and r rule: visit_visit_children.induct)
  case (1 rng g key path discovered finished)
  then show ?case
    by (auto simp: visit.simps[of rng g key] split: option.splits)
next
  case (2 rng g key path discovered finished)
  then show ?case by simp
next
  case (3 rng g key v vs path discovered finished)
  then show ?case
    by (auto simp: Let_def split: if_splits sum.splits)
qed

lemma visit_error_path:
  "range_ok rng \<Longrightarrow> visit rng g key path D F = Inl (Error m) \<Longrightarrow> path \<noteq> [] \<Longrightarrow> last path = key \<Longrightarrow>
      successively (\<lambda>a b. (a, b) \<in> graph_edges g) path \<Longrightarrow> set D \<subseteq> set (butlast path) \<Longrightarrow>
      \<exists>q. q \<noteq> [] \<and> Error m = cycle_message (path @ q) \<and>
          successively (\<lambda>a b. (a, b) \<in> graph_edges g) (path @ q) \<and>
          last q \<in> set (butlast (path @ q))"
  "range_ok rng \<Longrightarrow> visit_children rng g key vs path D F = Inl (Error m) \<Longrightarrow> path \<noteq> [] \<Longrightarrow> last path = key \<Longrightarrow>
      successively (\<lambda>a b. (a, b) \<in> graph_edges g) path \<Longrightarrow> set D \<subseteq> set path \<Longrightarrow>
      (\<forall>v \<in> set vs. (key, v) \<in> graph_edges g) \<Longrightarrow>
      \<exists>q. q \<noteq> [] \<and> Error m = cycle_message (path @ q) \<and>
          successively (\<lambda>a b. (a, b) \<in> graph_edges g) (path @ q) \<and>
          last q \<in> set (butlast (path @ q))"
proof (induction rng g key path D F and rng g key vs path D F
    arbitrary: m and m rule: visit_visit_children.induct)
  case (1 rng g key path discovered finished)
  from "1.prems"(2) obtain vertex where
    vx: "map_of (Vertices g) key = Some vertex" and
    ch: "visit_children rng g key (rng (Children vertex)) path (discovered @ [key]) finished
          = Inl (Error m)"
    by (auto simp: visit.simps[of rng g key] split: option.splits)
  have e: "\<forall>v \<in> set (rng (Children vertex)). (key, v) \<in> graph_edges g"
    using vx range_ok_set[OF "1.prems"(1)] by (auto simp: graph_edges_def)
  have d: "set (discovered @ [key]) \<subseteq> set path"
    using "1.prems"(3,4,6) by (auto dest: in_set_butlastD)
  show ?case
    by (rule "1.IH"[OF refl vx "1.prems"(1) ch "1.prems"(3,4,5) d e])
next
  case (2 rng g key path discovered finished)
  then show ?case by simp
next
  case (3 rng g key v vs path discovered finished)
  let ?E = "\<lambda>a b. (a, b) \<in> graph_edges g"
  note rng = "3.prems"(1)
  note res = "3.prems"(2)
  have edge: "(key, v) \<in> graph_edges g" using "3.prems"(7) by simp
  have rest: "\<forall>v \<in> set vs. (key, v) \<in> graph_edges g" using "3.prems"(7) by simp
  have succ': "successively ?E (path @ [v])"
    using "3.prems"(3,4,5) edge by (simp add: successively_append_iff)
  show ?case
  proof (cases "StringContains discovered v")
    case True
    then have "Error m = cycle_message (path @ [v])"
      using res by (simp add: cycle_message_def)
    moreover have "v \<in> set (butlast (path @ [v]))"
      using True "3.prems"(6) by (auto simp: StringContains_def)
    ultimately show ?thesis using succ' by (intro exI[of _ "[v]"]) simp
  next
    case nd: False
    show ?thesis
    proof (cases "StringContains finished v")
      case True
      then have "visit_children rng g key vs path discovered finished = Inl (Error m)"
        using res nd by simp
      then show ?thesis
        using "3.IH"(3)[OF refl nd _ rng _ "3.prems"(3,4,5,6) rest] True
        by simp
    next
      case nf: False
      show ?thesis
      proof (cases "visit rng g v (path @ [v]) discovered finished")
        case (Inl err)
        then have err: "err = Error m" using res nd nf by simp
        have "set discovered \<subseteq> set (butlast (path @ [v]))" using "3.prems"(6) by simp
        from "3.IH"(1)[OF refl nd nf rng Inl[unfolded err] _ _ succ' this]
        obtain q where q: "q \<noteq> []" "Error m = cycle_message ((path @ [v]) @ q)"
          "successively ?E ((path @ [v]) @ q)" "last q \<in> set (butlast ((path @ [v]) @ q))"
          by auto
        show ?thesis
          using q by (intro exI[of _ "v # q"]) simp
      next
        case (Inr r)
        then have "visit_children rng g key vs path discovered finished = Inl (Error m)"
          using res nd nf by simp
        then show ?thesis
          using "3.IH"(2)[OF refl nd nf Inr rng _ "3.prems"(3,4,5,6) rest]
          by simp
      qed
    qed
  qed
qed


lemma visit_no_panic:
  "range_ok rng \<Longrightarrow> wf_graph g \<Longrightarrow> key \<in> keys g \<Longrightarrow>
     visit rng g key path D F \<noteq> Inl NilPointerDereference"
  "range_ok rng \<Longrightarrow> wf_graph g \<Longrightarrow> set vs \<subseteq> keys g \<Longrightarrow>
     visit_children rng g key vs path D F \<noteq> Inl NilPointerDereference"
proof (induction rng g key path D F and rng g key vs path D F
    rule: visit_visit_children.induct)
  case (1 rng g key path discovered finished)
  obtain vertex where vx: "map_of (Vertices g) key = Some vertex"
    using "1.prems"(3) by (auto simp: keys_conv_dom)
  have "set (rng (Children vertex)) \<subseteq> keys g"
    using vx "1.prems"(1,2) by (auto simp: wf_graph_def range_ok_set simp del: map_of_eq_Some_iff)
  from "1.IH"[OF refl vx "1.prems"(1,2) this] show ?case
    using vx by (simp add: visit.simps[of rng g key])
next
  case (2 rng g key path discovered finished)
  then show ?case by simp
next
  case (3 rng g key v vs path discovered finished)
  then show ?case
    by (auto simp: Let_def split: sum.splits)
qed

lemma leads_to_cycle_child:
  assumes "leads_to_cycle g v"
  shows "\<exists>c. (v, c) \<in> graph_edges g \<and> leads_to_cycle g c"
proof -
  obtain w where vw: "(v, w) \<in> (graph_edges g)\<^sup>*" and ww: "(w, w) \<in> (graph_edges g)\<^sup>+"
    using assms by (auto simp: leads_to_cycle_def)
  show ?thesis
  proof (cases "v = w")
    case True
    then obtain c where c: "(v, c) \<in> graph_edges g" "(c, v) \<in> (graph_edges g)\<^sup>*"
      using ww by (auto dest: tranclD)
    then have "leads_to_cycle g c"
      using ww True by (auto simp: leads_to_cycle_def)
    then show ?thesis using c by blast
  next
    case False
    then obtain c where c: "(v, c) \<in> graph_edges g" "(c, w) \<in> (graph_edges g)\<^sup>*"
      using vw by (auto elim: converse_rtranclE)
    then have "leads_to_cycle g c"
      using ww by (auto simp: leads_to_cycle_def)
    then show ?thesis using c by blast
  qed
qed

lemma visit_finds_cycle:
  "range_ok rng \<Longrightarrow> visit rng g key path D F = Inr r \<Longrightarrow>
     (\<forall>f \<in> set F. \<not> leads_to_cycle g f) \<Longrightarrow> \<not> leads_to_cycle g key"
  "range_ok rng \<Longrightarrow> visit_children rng g key vs path D F = Inr r \<Longrightarrow>
     (\<forall>f \<in> set F. \<not> leads_to_cycle g f) \<Longrightarrow> (\<forall>v \<in> set vs. \<not> leads_to_cycle g v)"
proof (induction rng g key path D F and rng g key vs path D F
    arbitrary: r and r rule: visit_visit_children.induct)
  case (1 rng g key path discovered finished)
  from "1.prems"(2) obtain vertex where
    vx: "map_of (Vertices g) key = Some vertex" and
    ch: "visit_children rng g key (rng (Children vertex)) path (discovered @ [key]) finished = Inr r"
    by (auto simp: visit.simps[of rng g key] split: option.splits)
  have "\<forall>v \<in> set (rng (Children vertex)). \<not> leads_to_cycle g v"
    by (rule "1.IH"[OF refl vx "1.prems"(1) ch "1.prems"(3)])
  then have "\<forall>c. (key, c) \<in> graph_edges g \<longrightarrow> \<not> leads_to_cycle g c"
    using vx range_ok_set[OF "1.prems"(1)] by (auto simp: graph_edges_def)
  then show ?case using leads_to_cycle_child by blast
next
  case (2 rng g key path discovered finished)
  then show ?case by simp
next
  case (3 rng g key v vs path discovered finished)
  note rng = "3.prems"(1) and res = "3.prems"(2) and fin = "3.prems"(3)
  have nd: "\<not> StringContains discovered v"
    using res by (auto simp: Let_def split: if_splits)
  show ?case
  proof (cases "StringContains finished v")
    case True
    then have v: "\<not> leads_to_cycle g v" using fin by (simp add: StringContains_def)
    have "visit_children rng g key vs path discovered finished = Inr r"
      using res nd True by simp
    from "3.IH"(3)[OF refl nd _ rng this fin] True v show ?thesis by simp
  next
    case nf: False
    then obtain r' where v: "visit rng g v (path @ [v]) discovered finished = Inr r'"
      and rest: "visit_children rng g key vs path discovered finished = Inr r"
      using res nd by (auto simp: Let_def split: sum.splits)
    have "\<not> leads_to_cycle g v"
      by (rule "3.IH"(1)[OF refl nd nf rng v fin])
    moreover have "\<forall>v \<in> set vs. \<not> leads_to_cycle g v"
      by (rule "3.IH"(2)[OF refl nd nf v rng rest fin])
    ultimately show ?thesis by simp
  qed
qed

lemma HasCycles_loop_complete:
  "range_ok rng \<Longrightarrow> HasCycles_loop rng g ks [] F = None \<Longrightarrow>
     (\<forall>f \<in> set F. \<not> leads_to_cycle g f) \<Longrightarrow> (\<forall>k \<in> set ks. \<not> leads_to_cycle g k)"
proof (induction ks arbitrary: F)
  case Nil
  then show ?case by simp
next
  case (Cons k ks)
  show ?case
  proof (cases "StringContains F k")
    case True
    then have "HasCycles_loop rng g ks [] F = None"
      using Cons.prems(2) by (simp add: StringContains_def)
    from Cons.IH[OF Cons.prems(1) this Cons.prems(3)] True Cons.prems(3)
    show ?thesis by (simp add: StringContains_def)
  next
    case False
    then obtain r where v: "visit rng g k [k] [] F = Inr r"
      using Cons.prems(2) by (auto simp: StringContains_def split: sum.splits)
    then have r: "r = ([], F @ [k])"
      using visit_Inr(1)[OF v] by (simp add: remove_def)
    have k: "\<not> leads_to_cycle g k"
      by (rule visit_finds_cycle(1)[OF Cons.prems(1) v Cons.prems(3)])
    have "HasCycles_loop rng g ks [] (F @ [k]) = None"
      using Cons.prems(2) False v r by (simp add: StringContains_def)
    from Cons.IH[OF Cons.prems(1) this] k Cons.prems(3) show ?thesis by simp
  qed
qed

lemma HasCycles_loop_path:
  "range_ok rng \<Longrightarrow> HasCycles_loop rng g ks [] F = Some (Error m) \<Longrightarrow>
     \<exists>p. Error m = cycle_message p \<and> 2 \<le> length p \<and>
         successively (\<lambda>a b. (a, b) \<in> graph_edges g) p \<and> last p \<in> set (butlast p)"
proof (induction ks arbitrary: F)
  case Nil
  then show ?case by simp
next
  case (Cons k ks)
  show ?case
  proof (cases "StringContains F k")
    case True
    then have "HasCycles_loop rng g ks [] F = Some (Error m)"
      using Cons.prems(2) by (simp add: StringContains_def)
    from Cons.IH[OF Cons.prems(1) this] show ?thesis .
  next
    case False
    show ?thesis
    proof (cases "visit rng g k [k] [] F")
      case (Inl err)
      then have "visit rng g k [k] [] F = Inl (Error m)"
        using Cons.prems(2) False by (simp add: StringContains_def)
      from visit_error_path(1)[OF Cons.prems(1) this]
      obtain q where "q \<noteq> []" "Error m = cycle_message ([k] @ q)"
        "successively (\<lambda>a b. (a, b) \<in> graph_edges g) ([k] @ q)"
        "last q \<in> set (butlast ([k] @ q))"
        by auto
      then show ?thesis
        by (intro exI[of _ "[k] @ q"]) (cases q; simp)
    next
      case (Inr r)
      then have r: "r = ([], F @ [k])"
        using visit_Inr(1)[OF Inr] by (simp add: remove_def)
      have "HasCycles_loop rng g ks [] (F @ [k]) = Some (Error m)"
        using Cons.prems(2) False Inr r by (simp add: StringContains_def)
      from Cons.IH[OF Cons.prems(1) this] show ?thesis .
    qed
  qed
qed

lemma HasCycles_loop_no_panic:
  "range_ok rng \<Longrightarrow> wf_graph g \<Longrightarrow> set ks \<subseteq> keys g \<Longrightarrow>
     HasCycles_loop rng g ks [] F \<noteq> Some NilPointerDereference"
proof (induction ks arbitrary: F)
  case Nil
  then show ?case by simp
next
  case (Cons k ks)
  have np: "visit rng g k [k] [] F \<noteq> Inl NilPointerDereference"
    using visit_no_panic(1)[OF Cons.prems(1,2)] Cons.prems(3) by simp
  have ih: "HasCycles_loop rng g ks [] F' \<noteq> Some NilPointerDereference" for F'
    using Cons.IH[OF Cons.prems(1,2)] Cons.prems(3) by simp
  show ?case
  proof (cases "visit rng g k [k] [] F")
    case (Inl err)
    then show ?thesis using np ih by (auto simp: StringContains_def)
  next
    case (Inr r)
    then have r: "r = ([], F @ [k])"
      using visit_Inr(1)[OF Inr] by (simp add: remove_def)
    show ?thesis using Inr r ih by (auto simp: StringContains_def)
  qed
qed


subsection \<open>NewGraph\<close>

lemma cycle_within:
  assumes "(x, y) \<in> R\<^sup>+" and "y \<in> N" and "Domain R \<subseteq> N"
  shows "(x, y) \<in> {(a, b) \<in> R. b \<in> N}\<^sup>+"
  using assms(1,2)
proof (induction rule: trancl_induct)
  case (base y)
  then show ?case by auto
next
  case (step y z)
  have "y \<in> N" using step.hyps(2) assms(3) by auto
  then have "(x, y) \<in> {(a, b) \<in> R. b \<in> N}\<^sup>+" by (rule step.IH)
  moreover have "(y, z) \<in> {(a, b) \<in> R. b \<in> N}" using step by simp
  ultimately show ?case by (rule trancl_into_trancl)
qed

lemma dependency_edges_I:
  "s \<in> set services \<Longrightarrow> d \<in> set (Dependencies s) \<Longrightarrow> (Name s, d) \<in> dependency_edges services"
  by (auto simp: dependency_edges_def)

lemma edge_step_unknown: "d \<notin> keys g \<Longrightarrow> edge_step a d g = g"
  by (simp add: edge_step_def AddEdge_unknown)

lemma fold_edge_step_known:
  "fold (edge_step a) (filter (\<lambda>d. d \<in> keys g) ds) g = fold (edge_step a) ds g"
proof (induction ds arbitrary: g)
  case Nil
  then show ?case by simp
next
  case (Cons d ds)
  show ?case
  proof (cases "d \<in> keys g")
    case True
    have "fold (edge_step a) (filter (\<lambda>x. x \<in> keys (edge_step a d g)) ds) (edge_step a d g)
        = fold (edge_step a) ds (edge_step a d g)"
      by (rule Cons.IH)
    then show ?thesis using True by (simp add: edge_step_props(1))
  next
    case False
    then show ?thesis using Cons.IH[of g] by (simp add: edge_step_unknown)
  qed
qed

lemma add_edges_fold: "add_edges s g = fold (edge_step (Name s)) (Dependencies s) g"
  by (simp add: add_edges_def edge_step_def[abs_def])

lemma add_edges_known:
  "keys g = Name ` set services \<Longrightarrow> add_edges (known_dependencies services s) g = add_edges s g"
  using fold_edge_step_known[of "Name s" g "Dependencies s"]
  by (simp add: add_edges_fold known_dependencies_def)

lemma fold_add_edges_known:
  "keys g = Name ` set services \<Longrightarrow>
   fold add_edges (map (known_dependencies services) ss) g = fold add_edges ss g"
proof (induction ss arbitrary: g)
  case Nil
  then show ?case by simp
next
  case (Cons s ss)
  have "keys (add_edges s g) = Name ` set services"
    using Cons.prems by (simp add: add_edges_props(1))
  from Cons.IH[OF this] show ?case
    using Cons.prems by (simp add: add_edges_known)
qed

lemma built_known: "built (map (known_dependencies services) services) st = built services st"
proof -
  let ?g1 = "fold (\<lambda>s g. AddVertex g (Name s) (Name s) st) services \<lparr>Vertices = []\<rparr>"
  have f0: "fresh_graph st \<lparr>Vertices = []\<rparr>" by (simp add: fresh_graph_def)
  have k1: "keys ?g1 = Name ` set services"
    using add_vertices[OF f0, of services] by (auto simp: keys_def)
  have "fold (\<lambda>s g. AddVertex g (Name s) (Name s) st) (map (known_dependencies services) services)
          \<lparr>Vertices = []\<rparr> = ?g1"
    by (simp add: fold_map comp_def known_dependencies_def)
  then show ?thesis
    unfolding built_def using fold_add_edges_known[OF k1, of services] by simp
qed

section \<open>Claims about the dependency graph\<close>

text \<open>
  Claim C1, as the specification states it: an input with a dependency that names no
  service makes \<open>NewGraph\<close> fail.  It does not hold: \<open>NewGraph\<close> drops the error
  that \<open>AddEdge\<close> returns, so for the single service \<open>A\<close> that depends on the
  unknown \<open>X\<close> it returns the graph with the vertex \<open>A\<close> and no edge.
\<close>

theorem NewGraph_unknown_dependency_counterexample:
  "NewGraph (\<lambda>ks. ks) [\<lparr>Name = ''A'', Dependencies = [''X'']\<rparr>] ServiceStopped
     = Inr \<lparr>Vertices =
         [(''A'', \<lparr>Key = ''A'', Service = ''A'', Status = ServiceStopped,
                   Children = [], Parents = []\<rparr>)]\<rparr>"
  by code_simp

text \<open>
  Claim C1, amended: \<open>AddEdge\<close> towards a key that the graph does not hold fails with
  the error \<open>could not find <key>\<close> (naming the source when that is missing too), and
  \<open>NewGraph\<close> carries on without the edge: its result, graph or cycle error, is the
  one it gives for the input with the dependencies on unknown names left out.
\<close>

theorem NewGraph_skips_unknown_dependencies:
  "(destination \<notin> keys g \<longrightarrow>
      AddEdge g source destination
        = Inl (Error (''could not find '' @ (if source \<in> keys g then destination else source)))) \<and>
   NewGraph rng services initialStatus
     = NewGraph rng (map (known_dependencies services) services) initialStatus"
  by (simp add: AddEdge_unknown NewGraph_built built_known cong: option.case_cong)

theorem NewGraph_skips_unknown_dependencies_witness:
  "AddEdge \<lparr>Vertices = [(''A'', NewVertex ''A'' ''A'' ServiceStopped)]\<rparr> ''A'' ''X''
     = Inl (Error ''could not find X'') \<and>
   NewGraph (\<lambda>ks. ks) [\<lparr>Name = ''A'', Dependencies = [''X'']\<rparr>] ServiceStopped
     = NewGraph (\<lambda>ks. ks) [\<lparr>Name = ''A'', Dependencies = []\<rparr>] ServiceStopped"
  using NewGraph_skips_unknown_dependencies
    [of "''X''" "\<lparr>Vertices = [(''A'', NewVertex ''A'' ''A'' ServiceStopped)]\<rparr>" "''A''"
        "\<lambda>ks. ks" "[\<lparr>Name = ''A'', Dependencies = [''X'']\<rparr>]" ServiceStopped]
  by (simp add: keys_def known_dependencies_def)

text \<open>
  Claim C3, as the specification states it: the key sequence of the cycle error starts
  and ends with the same key.  It does not hold when the search starts outside the
  cycle: for \<open>A \<rightarrow> B\<close>, \<open>B \<rightarrow> C\<close>, \<open>C \<rightarrow> B\<close>, with \<open>range\<close> yielding \<open>A\<close>
  first, the reported sequence is \<open>A, B, C, B\<close>.
\<close>

theorem NewGraph_cycle_path_counterexample:
  "NewGraph (\<lambda>ks. ks)
     [\<lparr>Name = ''A'', Dependencies = [''B'']\<rparr>,
      \<lparr>Name = ''B'', Dependencies = [''C'']\<rparr>,
      \<lparr>Name = ''C'', Dependencies = [''B'']\<rparr>] ServiceStopped
     = Inl (Error ''cycle found: A -> B -> C -> B'') \<and>
   ''cycle found: A -> B -> C -> B''
     = ''cycle found: '' @ strings_Join [''A'', ''B'', ''C'', ''B''] '' -> '' \<and>
   hd [''A'', ''B'', ''C'', ''B''] \<noteq> last [''A'', ''B'', ''C'', ''B'']"
  by code_simp

text \<open>
  Claim C3, amended: for every input whose dependency edges contain a directed cycle, and
  every order of map iteration, \<open>NewGraph\<close> returns an error with the message
  \<open>cycle found: k1 -> ... -> kn\<close>, where consecutive keys are dependency edges of the
  input, there are at least two keys, and the last key occurs earlier in the sequence: the
  sequence is a path from the vertex where the search started into a cycle that it
  closes.
\<close>

theorem NewGraph_reports_cycle:
  assumes "range_ok rng" and "(x, x) \<in> (dependency_edges services)\<^sup>+"
  shows "\<exists>p. NewGraph rng services initialStatus
            = Inl (Error (''cycle found: '' @ strings_Join p '' -> '')) \<and>
          2 \<le> length p \<and>
          successively (\<lambda>a b. (a, b) \<in> dependency_edges services) p \<and>
          last p \<in> set (butlast p)"
proof -
  let ?g = "built services initialStatus"
  let ?N = "Name ` set services"
  have dom: "Domain (dependency_edges services) \<subseteq> ?N"
    by (auto simp: dependency_edges_def)
  have xN: "x \<in> ?N"
    using assms(2) dom by (auto dest: tranclD)
  have edges: "graph_edges ?g = {(a, d) \<in> dependency_edges services. d \<in> ?N}"
    by (rule built_props)
  have "(x, x) \<in> (graph_edges ?g)\<^sup>+"
    unfolding edges by (rule cycle_within[OF assms(2) xN dom])
  then have bad: "leads_to_cycle ?g x"
    by (auto simp: leads_to_cycle_def)
  have xk: "x \<in> keys ?g" using xN by (simp add: built_props)
  have ks: "set (rng (map fst (Vertices ?g))) = keys ?g"
    by (simp add: range_ok_set[OF assms(1)] keys_def)
  have "HasCycles rng ?g \<noteq> None"
  proof
    assume "HasCycles rng ?g = None"
    then have "HasCycles_loop rng ?g (rng (map fst (Vertices ?g))) [] [] = None"
      by (simp add: HasCycles_def)
    from HasCycles_loop_complete[OF assms(1) this] ks xk bad show False by auto
  qed
  moreover have "HasCycles rng ?g \<noteq> Some NilPointerDereference"
    unfolding HasCycles_def
    by (rule HasCycles_loop_no_panic[OF assms(1) built_props(2)]) (simp add: ks)
  ultimately obtain m where m: "HasCycles rng ?g = Some (Error m)"
    by (cases "HasCycles rng ?g") (auto intro: failure.exhaust)
  then have "HasCycles_loop rng ?g (rng (map fst (Vertices ?g))) [] [] = Some (Error m)"
    by (simp add: HasCycles_def)
  from HasCycles_loop_path[OF assms(1) this]
  obtain p where p: "Error m = cycle_message p" "2 \<le> length p"
    "successively (\<lambda>a b. (a, b) \<in> graph_edges ?g) p" "last p \<in> set (butlast p)"
    by auto
  have "successively (\<lambda>a b. (a, b) \<in> dependency_edges services) p"
    using p(3) by (rule successively_mono) (auto simp: edges)
  moreover have "NewGraph rng services initialStatus
      = Inl (Error (''cycle found: '' @ strings_Join p '' -> ''))"
    using m p(1) by (simp add: NewGraph_built cycle_message_def)
  ultimately show ?thesis using p(2,4) by blast
qed

theorem NewGraph_reports_cycle_witness:
  "\<exists>p. NewGraph (\<lambda>ks. ks)
          [\<lparr>Name = ''A'', Dependencies = [''B'']\<rparr>,
           \<lparr>Name = ''B'', Dependencies = [''C'']\<rparr>,
           \<lparr>Name = ''C'', Dependencies = [''A'']\<rparr>] ServiceStopped
        = Inl (Error (''cycle found: '' @ strings_Join p '' -> '')) \<and>
      2 \<le> length p \<and>
      successively (\<lambda>a b. (a, b) \<in> dependency_edges
          [\<lparr>Name = ''A'', Dependencies = [''B'']\<rparr>,
           \<lparr>Name = ''B'', Dependencies = [''C'']\<rparr>,
           \<lparr>Name = ''C'', Dependencies = [''A'']\<rparr>]) p \<and>
      last p \<in> set (butlast p)"
proof -
  let ?services = "[\<lparr>Name = ''A'', Dependencies = [''B'']\<rparr>,
           \<lparr>Name = ''B'', Dependencies = [''C'']\<rparr>,
           \<lparr>Name = ''C'', Dependencies = [''A'']\<rparr>]"
  have r: "range_ok (\<lambda>ks. ks)" by (simp add: range_ok_def)
  have ab: "(''A'', ''B'') \<in> dependency_edges ?services"
    using dependency_edges_I[of "\<lparr>Name = ''A'', Dependencies = [''B'']\<rparr>" ?services "''B''"]
    by simp
  have bc: "(''B'', ''C'') \<in> dependency_edges ?services"
    using dependency_edges_I[of "\<lparr>Name = ''B'', Dependencies = [''C'']\<rparr>" ?services "''C''"]
    by simp
  have ca: "(''C'', ''A'') \<in> dependency_edges ?services"
    using dependency_edges_I[of "\<lparr>Name = ''C'', Dependencies = [''A'']\<rparr>" ?services "''A''"]
    by simp
  have c: "(''A'', ''A'') \<in> (dependency_edges ?services)\<^sup>+"
    by (rule trancl_trans[OF r_into_trancl[OF ab] trancl_trans[OF r_into_trancl[OF bc] r_into_trancl[OF ca]]])
  show ?thesis by (rule NewGraph_reports_cycle[OF r c])
qed

text \<open>
  Claim C8: \<open>UpdateStatus\<close>, \<open>FilterChildren\<close> and \<open>FilterParents\<close> read the vertex
  through \<open>g.Vertices[key]\<close> with no presence check.  For a key of the graph each of them
  returns (and \<open>UpdateStatus\<close> leaves the vertex with the new status and the keys as they
  were); for any other key each of them dereferences a nil vertex.
\<close>

theorem status_operations_need_key:
  "(key \<in> keys g \<longrightarrow>
      (\<exists>g'. UpdateStatus g key status = Inr g' \<and> has_status g' status key \<and> keys g' = keys g) \<and>
      (\<exists>cs. FilterChildren rng g key status = Inr cs) \<and>
      (\<exists>ps. FilterParents rng g key status = Inr ps)) \<and>
   (key \<notin> keys g \<longrightarrow>
      UpdateStatus g key status = Inl NilPointerDereference \<and>
      FilterChildren rng g key status = Inl NilPointerDereference \<and>
      FilterParents rng g key status = Inl NilPointerDereference)"
  by (auto simp: UpdateStatus_def FilterChildren_def FilterParents_def has_status_def
      keys_conv_dom map_of_modify keys_modify[unfolded keys_conv_dom] split: option.splits)

theorem status_operations_need_key_witness:
  "(\<exists>g'. UpdateStatus \<lparr>Vertices = [(''A'', NewVertex ''A'' ''A'' ServiceStopped)]\<rparr> ''A'' ServiceStarted = Inr g' \<and>
        has_status g' ServiceStarted ''A'') \<and>
   UpdateStatus \<lparr>Vertices = [(''A'', NewVertex ''A'' ''A'' ServiceStopped)]\<rparr> ''B'' ServiceStarted
     = Inl NilPointerDereference \<and>
   FilterChildren (\<lambda>ks. ks) \<lparr>Vertices = [(''A'', NewVertex ''A'' ''A'' ServiceStopped)]\<rparr> ''B'' ServiceStopped
     = Inl NilPointerDereference \<and>
   FilterParents (\<lambda>ks. ks) \<lparr>Vertices = [(''A'', NewVertex ''A'' ''A'' ServiceStopped)]\<rparr> ''B'' ServiceStopped
     = Inl NilPointerDereference"
  using status_operations_need_key
    [of "''A''" "\<lparr>Vertices = [(''A'', NewVertex ''A'' ''A'' ServiceStopped)]\<rparr>" ServiceStarted "\<lambda>ks. ks"]
    status_operations_need_key
    [of "''B''" "\<lparr>Vertices = [(''A'', NewVertex ''A'' ''A'' ServiceStopped)]\<rparr>" ServiceStarted "\<lambda>ks. ks"]
    status_operations_need_key
    [of "''B''" "\<lparr>Vertices = [(''A'', NewVertex ''A'' ''A'' ServiceStopped)]\<rparr>" ServiceStopped "\<lambda>ks. ks"]
  by (auto simp: keys_def)

section \<open>Properties of the traversal\<close>

lemma run_stepE:
  assumes "run_step rng pc s = Some (pc', s')"
  obtains
    (filter_skip) node nodes adjacent where "pc = Filter (node # nodes)"
      "filterAdjacentByStatusFn (traversal s) rng (graph s) node
         (adjacentServiceStatusToSkip (traversal s)) = Inr adjacent"
      "adjacent \<noteq> []" "pc' = Filter nodes" "s' = s"
  | (filter_pass) node nodes where "pc = Filter (node # nodes)"
      "filterAdjacentByStatusFn (traversal s) rng (graph s) node
         (adjacentServiceStatusToSkip (traversal s)) = Inr []"
      "pc' = Consume node nodes" "s' = s"
  | (consume_seen) node nodes where "pc = Consume node nodes" "node \<in> seen (traversal s)"
      "pc' = Filter nodes" "s' = s"
  | (consume_new) node nodes where "pc = Consume node nodes" "node \<notin> seen (traversal s)"
      "pc' = Go node nodes"
      "s' = s\<lparr>traversal := (traversal s)\<lparr>seen := insert node (seen (traversal s))\<rparr>\<rparr>"
  | (go) node nodes where "pc = Go node nodes" "may_go s" "pc' = Filter nodes"
      "s' = s\<lparr>workers := workers s @ [(node, Spawned)]\<rparr>"
proof (cases pc)
  case (Filter ns)
  show ?thesis
  proof (cases ns)
    case Nil
    then show ?thesis using assms Filter by simp
  next
    case (Cons n ns')
    show ?thesis
    proof (cases "filterAdjacentByStatusFn (traversal s) rng (graph s) n
         (adjacentServiceStatusToSkip (traversal s))")
      case (Inl e)
      then show ?thesis using assms Filter Cons by simp
    next
      case (Inr adjacent)
      show ?thesis
      proof (cases "adjacent = []")
        case True
        have "pc' = Consume n ns'" "s' = s"
          using assms Filter Cons Inr True by simp_all
        then show ?thesis using that(2)[of n ns'] Filter Cons Inr True by simp
      next
        case False
        have "pc' = Filter ns'" "s' = s"
          using assms Filter Cons Inr False by simp_all
        then show ?thesis using that(1)[of n ns' adjacent] Filter Cons Inr False by simp
      qed
    qed
  qed
next
  case (Consume n ns)
  show ?thesis
  proof (cases "n \<in> seen (traversal s)")
    case True
    have "pc' = Filter ns" "s' = s"
      using assms Consume True by (simp_all add: consume_def)
    then show ?thesis using that(3)[of n ns] Consume True by simp
  next
    case False
    have "pc' = Go n ns"
      "s' = s\<lparr>traversal := (traversal s)\<lparr>seen := insert n (seen (traversal s))\<rparr>\<rparr>"
      using assms Consume False by (simp_all add: consume_def)
    then show ?thesis using that(4)[of n ns] Consume False by simp
  qed
next
  case (Go n ns)
  have "may_go s" "pc' = Filter ns" "s' = s\<lparr>workers := workers s @ [(n, Spawned)]\<rparr>"
    using assms Go by (simp_all split: if_splits)
  then show ?thesis using that(5)[of n ns] Go by simp
qed

subsection \<open>At most once\<close>

lemma once_start: "once (visit_start rng t g)"
  by (simp add: once_def visit_start_def pending_def run_pcs_def)

lemma once_step:
  assumes "step rng s s'" and "once s"
  shows "once s'"
  using assms(1)
proof (cases rule: step.cases)
  case (main_run pc pc' s1)
  from main_run(3) show ?thesis
    using assms(2) main_run(1,2)
    by (cases rule: run_stepE)
       (auto simp: once_def pending_def run_pcs_def split: coordinator_pc.splits)
next
  case main_run_done
  then show ?thesis using assms(2)
    by (auto simp: once_def pending_def run_pcs_def split: coordinator_pc.splits)
next
  case main_wait
  then show ?thesis using assms(2)
    by (auto simp: once_def pending_def run_pcs_def split: coordinator_pc.splits)
next
  case (coordinator_run pc pc' s1)
  from coordinator_run(3) show ?thesis
    using assms(2) coordinator_run(1,2)
    by (cases rule: run_stepE)
       (auto simp: once_def pending_def run_pcs_def split: main_pc.splits)
next
  case coordinator_run_done
  then show ?thesis using assms(2)
    by (auto simp: once_def pending_def run_pcs_def split: main_pc.splits)
next
  case (receive_last ws node err ws')
  then show ?thesis using assms(2)
    by (auto simp: once_def pending_def run_pcs_def split: main_pc.splits)
next
  case (receive ws node err ws' vertex)
  then show ?thesis using assms(2)
    by (auto simp: once_def pending_def run_pcs_def split: main_pc.splits)
next
  case (invoke ws node ws')
  then show ?thesis using assms(2)
    by (auto simp: once_def pending_def run_pcs_def split: main_pc.splits coordinator_pc.splits)
next
  case (visitor_nil ws node ws' vertex g')
  then show ?thesis using assms(2)
    by (auto simp: once_def pending_def run_pcs_def split: main_pc.splits coordinator_pc.splits)
next
  case (visitor_error ws node ws' vertex err)
  then show ?thesis using assms(2)
    by (auto simp: once_def pending_def run_pcs_def split: main_pc.splits coordinator_pc.splits)
next
  case (worker_return ws node err ws')
  then show ?thesis using assms(2)
    by (auto simp: once_def pending_def run_pcs_def split: main_pc.splits coordinator_pc.splits)
next
  case cancel
  then show ?thesis using assms(2)
    by (auto simp: once_def pending_def run_pcs_def split: main_pc.splits coordinator_pc.splits)
qed

subsection \<open>Shape and configuration\<close>

lemma same_shape_refl: "same_shape g g"
  by (simp add: same_shape_def)

lemma same_shape_fst: "same_shape g g' \<Longrightarrow> map fst (Vertices g') = map fst (Vertices g)"
proof -
  assume "same_shape g g'"
  then have "map fst (map (\<lambda>kv. (fst kv, (snd kv)\<lparr>Status := ServiceStopped\<rparr>)) (Vertices g'))
      = map fst (map (\<lambda>kv. (fst kv, (snd kv)\<lparr>Status := ServiceStopped\<rparr>)) (Vertices g))"
    by (simp only: same_shape_def)
  then show ?thesis by (simp add: comp_def)
qed

lemma same_shape_keys: "same_shape g g' \<Longrightarrow> keys g' = keys g"
  using arg_cong[OF same_shape_fst, of g g' set] by (simp add: keys_def)

lemma UpdateStatus_same_shape:
  assumes "UpdateStatus g' key st = Inr g''" and "same_shape g g'"
  shows "same_shape g g''"
proof -
  have g'': "g'' = modify g' key (\<lambda>v. v\<lparr>Status := st\<rparr>)"
    using assms(1) by (auto simp: UpdateStatus_def split: option.splits)
  have "map (\<lambda>kv. (fst kv, (snd kv)\<lparr>Status := ServiceStopped\<rparr>)) (Vertices g'')
      = map (\<lambda>kv. (fst kv, (snd kv)\<lparr>Status := ServiceStopped\<rparr>)) (Vertices g')"
    unfolding g'' modify_def by (auto simp: case_prod_unfold)
  then show ?thesis using assms(2) by (simp add: same_shape_def)
qed

lemma unchanged_start: "unchanged t g (visit_start rng t g)"
  by (simp add: unchanged_def visit_start_def same_shape_refl)

lemma unchanged_step:
  assumes "step rng s s'" and "unchanged t g s"
  shows "unchanged t g s'"
  using assms(1)
proof (cases rule: step.cases)
  case (main_run pc pc' s1)
  from main_run(3) show ?thesis
    using assms(2) main_run(1,2)
    by (cases rule: run_stepE) (auto simp: unchanged_def)
next
  case (coordinator_run pc pc' s1)
  from coordinator_run(3) show ?thesis
    using assms(2) coordinator_run(1,2)
    by (cases rule: run_stepE) (auto simp: unchanged_def)
next
  case (visitor_nil ws node ws' vertex g')
  then show ?thesis using assms(2)
    by (auto simp: unchanged_def intro: UpdateStatus_same_shape)
qed (use assms(2) in \<open>auto simp: unchanged_def\<close>)

lemma reachable_unchanged: "reachable rng t g s \<Longrightarrow> unchanged t g s"
  by (induction rule: reachable.induct) (auto intro: unchanged_start unchanged_step)

lemma unchanged_fields:
  assumes "unchanged t g s"
  shows "filterAdjacentByStatusFn (traversal s) = filterAdjacentByStatusFn t"
    "adjacentServiceStatusToSkip (traversal s) = adjacentServiceStatusToSkip t"
    "targetServiceStatus (traversal s) = targetServiceStatus t"
    "visitorFn (traversal s) = visitorFn t"
    "adjacentNodesFn (traversal s) = adjacentNodesFn t"
    "maxConcurrency (traversal s) = maxConcurrency t"
proof -
  have e: "(traversal s)\<lparr>seen := seen t\<rparr> = t" using assms by (simp add: unchanged_def)
  show "filterAdjacentByStatusFn (traversal s) = filterAdjacentByStatusFn t"
    using arg_cong[OF e, of filterAdjacentByStatusFn] by simp
  show "adjacentServiceStatusToSkip (traversal s) = adjacentServiceStatusToSkip t"
    using arg_cong[OF e, of adjacentServiceStatusToSkip] by simp
  show "targetServiceStatus (traversal s) = targetServiceStatus t"
    using arg_cong[OF e, of targetServiceStatus] by simp
  show "visitorFn (traversal s) = visitorFn t"
    using arg_cong[OF e, of visitorFn] by simp
  show "adjacentNodesFn (traversal s) = adjacentNodesFn t"
    using arg_cong[OF e, of adjacentNodesFn] by simp
  show "maxConcurrency (traversal s) = maxConcurrency t"
    using arg_cong[OF e, of maxConcurrency] by simp
qed

subsection \<open>Readiness\<close>

lemma target_not_skip:
  "goes_up t \<or> goes_down t \<Longrightarrow> targetServiceStatus t \<noteq> adjacentServiceStatusToSkip t"
  by (auto simp: goes_up_def goes_down_def)

lemma ready_key: "goes_up t \<or> goes_down t \<Longrightarrow> ready rng t g node \<Longrightarrow> node \<in> keys g"
  by (auto simp: ready_def goes_up_def goes_down_def FilterChildren_def FilterParents_def
      keys_conv_dom split: option.splits)

lemma has_status_UpdateStatus:
  assumes "UpdateStatus g key st = Inr g'"
  shows "has_status g' st' k = (if k = key then st' = st else has_status g st' k)"
proof -
  obtain v where v: "map_of (Vertices g) key = Some v"
    and g': "g' = modify g key (\<lambda>v. v\<lparr>Status := st\<rparr>)"
    using assms by (auto simp: UpdateStatus_def split: option.splits)
  show ?thesis
    using v by (auto simp: has_status_def g' map_of_modify split: option.splits)
qed

lemma lookup_UpdateStatus:
  assumes "UpdateStatus g key st = Inr g'"
  shows "map_option Children (map_of (Vertices g') k) = map_option Children (map_of (Vertices g) k)"
    "map_option Parents (map_of (Vertices g') k) = map_option Parents (map_of (Vertices g) k)"
proof -
  have g': "g' = modify g key (\<lambda>v. v\<lparr>Status := st\<rparr>)"
    using assms by (auto simp: UpdateStatus_def split: option.splits)
  show "map_option Children (map_of (Vertices g') k) = map_option Children (map_of (Vertices g) k)"
    by (simp add: g' map_of_modify option.map_comp comp_def)
  show "map_option Parents (map_of (Vertices g') k) = map_option Parents (map_of (Vertices g) k)"
    by (simp add: g' map_of_modify option.map_comp comp_def)
qed

lemma ready_UpdateStatus:
  assumes t: "goes_up t \<or> goes_down t"
    and u: "UpdateStatus g key (targetServiceStatus t) = Inr g'"
    and r: "ready rng t g node"
  shows "ready rng t g' node"
proof -
  have ns: "targetServiceStatus t \<noteq> adjacentServiceStatusToSkip t"
    by (rule target_not_skip[OF t])
  have hs: "has_status g' (adjacentServiceStatusToSkip t) c \<Longrightarrow>
      has_status g (adjacentServiceStatusToSkip t) c" for c
    using ns by (auto simp: has_status_UpdateStatus[OF u] split: if_splits)
  have f: "filter (has_status g (adjacentServiceStatusToSkip t)) xs = [] \<Longrightarrow>
      filter (has_status g' (adjacentServiceStatusToSkip t)) xs = []" for xs
    using hs by (auto simp: filter_empty_conv)
  from t show ?thesis
  proof
    assume up: "goes_up t"
    then obtain v where v: "map_of (Vertices g) node = Some v"
      and e: "filter (has_status g (adjacentServiceStatusToSkip t)) (rng (Children v)) = []"
      using r by (auto simp: ready_def goes_up_def FilterChildren_def split: option.splits)
    obtain v' where v': "map_of (Vertices g') node = Some v'" "Children v' = Children v"
      using lookup_UpdateStatus(1)[OF u, of node] v by auto
    show ?thesis
      using up v' f[OF e] by (simp add: ready_def goes_up_def FilterChildren_def)
  next
    assume down: "goes_down t"
    then obtain v where v: "map_of (Vertices g) node = Some v"
      and e: "filter (has_status g (adjacentServiceStatusToSkip t)) (rng (Parents v)) = []"
      using r by (auto simp: ready_def goes_down_def FilterParents_def split: option.splits)
    obtain v' where v': "map_of (Vertices g') node = Some v'" "Parents v' = Parents v"
      using lookup_UpdateStatus(2)[OF u, of node] v by auto
    show ?thesis
      using down v' f[OF e] by (simp add: ready_def goes_down_def FilterParents_def)
  qed
qed

lemma UpdateStatus_keys: "UpdateStatus g key st = Inr g' \<Longrightarrow> keys g' = keys g"
  by (auto simp: UpdateStatus_def keys_modify split: option.splits)

lemma all_ready_start: "all_ready rng t (visit_start rng t g)"
  by (simp add: all_ready_def visit_start_def run_pcs_def)

lemma all_ready_run_step:
  assumes rs: "run_step rng pc s = Some (pc', s')"
    and u: "unchanged t g s"
    and pc: "\<forall>node \<in> set (filtered_node pc). ready rng t (graph s) node"
  shows "graph s' = graph s \<and> visited s' = visited s \<and>
         (\<forall>node \<in> set (filtered_node pc'). ready rng t (graph s) node) \<and>
         (\<forall>w \<in> set (workers s') - set (workers s). ready rng t (graph s) (fst w)) \<and>
         set (workers s) \<subseteq> set (workers s') \<and>
         main s' = main s \<and> coordinator s' = coordinator s"
  using rs
proof (cases rule: run_stepE)
  case (filter_pass node nodes)
  then show ?thesis
    using unchanged_fields(1,2)[OF u] by (simp add: ready_def)
qed (use pc in auto)

lemma all_ready_step:
  assumes t: "goes_up t \<or> goes_down t"
    and st: "step rng s s'" and u: "unchanged t g s" and a: "all_ready rng t s"
  shows "all_ready rng t s'"
  using st
proof (cases rule: step.cases)
  case (main_run pc pc' s1)
  have "\<forall>node \<in> set (filtered_node pc). ready rng t (graph s) node"
    using a main_run(2) by (simp add: all_ready_def run_pcs_def)
  from all_ready_run_step[OF main_run(3) u this] show ?thesis
    using a main_run(1,2)
    by (auto simp: all_ready_def run_pcs_def split: coordinator_pc.splits)
next
  case (coordinator_run pc pc' s1)
  have "\<forall>node \<in> set (filtered_node pc). ready rng t (graph s) node"
    using a coordinator_run(2) by (simp add: all_ready_def run_pcs_def)
  from all_ready_run_step[OF coordinator_run(3) u this] show ?thesis
    using a coordinator_run(1,2)
    by (auto simp: all_ready_def run_pcs_def split: main_pc.splits)
next
  case (visitor_nil ws node ws' vertex g')
  have up: "UpdateStatus (graph s) node (targetServiceStatus t) = Inr g'"
    using visitor_nil(5) unchanged_fields(3)[OF u] by simp
  have r: "ready rng t (graph s) n \<Longrightarrow> ready rng t g' n" for n
    by (rule ready_UpdateStatus[OF t up])
  show ?thesis
    using a visitor_nil(1,2) r UpdateStatus_keys[OF up]
    by (auto simp: all_ready_def run_pcs_def)
next
  case (invoke ws node ws')
  have "ready rng t (graph s) node" using a invoke(2) by (simp add: all_ready_def)
  then have "node \<in> keys (graph s)" by (rule ready_key[OF t])
  then show ?thesis
    using a invoke(1,2) by (auto simp: all_ready_def run_pcs_def)
next
  case main_run_done
  then show ?thesis using a by (auto simp: all_ready_def run_pcs_def)
next
  case main_wait
  then show ?thesis using a by (auto simp: all_ready_def run_pcs_def)
next
  case coordinator_run_done
  then show ?thesis using a by (auto simp: all_ready_def run_pcs_def)
next
  case (receive_last ws node err ws')
  then show ?thesis using a by (auto simp: all_ready_def run_pcs_def)
next
  case (receive ws node err ws' vertex)
  then show ?thesis using a by (auto simp: all_ready_def run_pcs_def)
next
  case (visitor_error ws node ws' vertex err)
  then show ?thesis using a by (auto simp: all_ready_def run_pcs_def)
next
  case (worker_return ws node err ws')
  then show ?thesis using a by (auto simp: all_ready_def run_pcs_def)
next
  case cancel
  then show ?thesis using a by (auto simp: all_ready_def run_pcs_def)
qed

lemma reachable_all_ready:
  assumes "goes_up t \<or> goes_down t" and "reachable rng t g s"
  shows "all_ready rng t s"
  using assms(2)
proof (induction rule: reachable.induct)
  case start
  show ?case by (rule all_ready_start)
next
  case (after s s')
  show ?case
    by (rule all_ready_step[OF assms(1) after.hyps(2) reachable_unchanged[OF after.hyps(1)] after.IH])
qed

subsection \<open>The countdown\<close>

lemma run_step_frame:
  assumes "run_step rng pc s = Some (pc', s')"
  shows "expect s' = expect s \<and> visited s' = visited s \<and> unreceived s' = unreceived s \<and>
    main s' = main s \<and> coordinator s' = coordinator s \<and> eg_err s' = eg_err s \<and>
    graph s' = graph s \<and> set (workers s) \<subseteq> set (workers s')"
  using assms
proof (cases rule: run_stepE)
  case (filter_skip node nodes adjacent)
  then show ?thesis by simp
next
  case (filter_pass node nodes)
  then show ?thesis by simp
next
  case (consume_seen node nodes)
  then show ?thesis by simp
next
  case (consume_new node nodes)
  then show ?thesis by (simp add: unreceived_def)
next
  case (go node nodes)
  then show ?thesis by (auto simp: unreceived_def)
qed

lemma countdown_start: "countdown g (visit_start rng t g)"
  by (simp add: countdown_def visit_start_def unreceived_def)


lemma unreceived_frame [simp]:
  "unreceived (s\<lparr>main := m\<rparr>) = unreceived s"
  "unreceived (s\<lparr>coordinator := c\<rparr>) = unreceived s"
  by (simp_all add: unreceived_def)

lemma countdown_step:
  assumes "step rng s s'" and c: "countdown g s"
  shows "countdown g s'"
  using assms(1)
proof (cases rule: step.cases)
  case (main_run pc pc' s1)
  show ?thesis
    using c main_run(1,2) run_step_frame[OF main_run(3)]
    by (simp add: countdown_def)
next
  case (coordinator_run pc pc' s1)
  show ?thesis
    using c coordinator_run(1,2) run_step_frame[OF coordinator_run(3)]
    by (simp add: countdown_def)
next
  case main_run_done
  then show ?thesis using c by (simp add: countdown_def unreceived_def)
next
  case main_wait
  then show ?thesis using c by (simp add: countdown_def unreceived_def)
next
  case coordinator_run_done
  then show ?thesis using c by (simp add: countdown_def unreceived_def)
next
  case (receive_last ws node err ws')
  then show ?thesis using c by (simp add: countdown_def unreceived_def)
next
  case (receive ws node err ws' vertex)
  then show ?thesis using c by (simp add: countdown_def unreceived_def)
next
  case (invoke ws node ws')
  then show ?thesis using c by (simp add: countdown_def unreceived_def)
next
  case (visitor_nil ws node ws' vertex g')
  then show ?thesis using c by (simp add: countdown_def unreceived_def)
next
  case (visitor_error ws node ws' vertex err)
  then show ?thesis using c by (simp add: countdown_def unreceived_def)
next
  case (worker_return ws node err ws')
  then show ?thesis using c by (simp add: countdown_def unreceived_def)
next
  case cancel
  then show ?thesis using c by (simp add: countdown_def unreceived_def)
qed

lemma reachable_countdown: "reachable rng t g s \<Longrightarrow> countdown g s"
  by (induction rule: reachable.induct) (auto intro: countdown_start countdown_step)

lemma reachable_once: "reachable rng t g s \<Longrightarrow> once s"
  by (induction rule: reachable.induct) (auto intro: once_start once_step)

subsection \<open>Statuses of the invoked nodes\<close>

lemma settled_start: "settled t (visit_start rng t g)"
  by (simp add: settled_def visit_start_def)

lemma settledI:
  assumes "settled t s"
    and "\<And>n. n \<in> set (visited s') \<Longrightarrow> n \<in> set (visited s) \<or> excused (workers s') n"
    and "\<And>n. has_status (graph s) (targetServiceStatus t) n \<Longrightarrow>
           has_status (graph s') (targetServiceStatus t) n"
    and "eg_err s \<noteq> None \<Longrightarrow> eg_err s' \<noteq> None"
    and "\<And>n. excused (workers s) n \<Longrightarrow>
           excused (workers s') n \<or> eg_err s' \<noteq> None \<or>
           has_status (graph s') (targetServiceStatus t) n"
  shows "settled t s'"
  unfolding settled_def
proof
  fix n assume "n \<in> set (visited s')"
  from assms(2)[OF this] show "has_status (graph s') (targetServiceStatus t) n \<or>
      eg_err s' \<noteq> None \<or> excused (workers s') n"
  proof
    assume "n \<in> set (visited s)"
    with assms(1) have "has_status (graph s) (targetServiceStatus t) n \<or> eg_err s \<noteq> None \<or>
        excused (workers s) n"
      by (simp add: settled_def)
    then show ?thesis using assms(3,4,5) by blast
  qed simp
qed

lemma excused_mono: "set ws \<subseteq> set ws' \<Longrightarrow> excused ws n \<Longrightarrow> excused ws' n"
  unfolding excused_def by blast


lemma excused_replace:
  "excused (ws @ (node, w') # ws') n
     = (excused (ws @ ws') n \<or> (n = node \<and> (w' = Visiting \<or> (\<exists>err. w' = Sending (Some err) \<or> w' = Sent (Some err)))))"
  unfolding excused_def by auto

lemma settled_step:
  assumes st: "step rng s s'" and u: "unchanged t g s" and a: "settled t s"
  shows "settled t s'"
  using st
proof (cases rule: step.cases)
  case (main_run pc pc' s1)
  note f = run_step_frame[OF main_run(3)]
  show ?thesis
    using a
  proof (rule settledI)
    show "excused (workers s) n \<Longrightarrow> excused (workers s') n \<or> eg_err s' \<noteq> None \<or>
        has_status (graph s') (targetServiceStatus t) n" for n
      using f main_run(1) excused_mono[of "workers s" "workers s1" n] by simp
  qed (use f main_run(1) in simp_all)
next
  case (coordinator_run pc pc' s1)
  note f = run_step_frame[OF coordinator_run(3)]
  show ?thesis
    using a
  proof (rule settledI)
    show "excused (workers s) n \<Longrightarrow> excused (workers s') n \<or> eg_err s' \<noteq> None \<or>
        has_status (graph s') (targetServiceStatus t) n" for n
      using f coordinator_run(1) excused_mono[of "workers s" "workers s1" n] by simp
  qed (use f coordinator_run(1) in simp_all)
next
  case (visitor_nil ws node ws' vertex g')
  have up: "UpdateStatus (graph s) node (targetServiceStatus t) = Inr g'"
    using visitor_nil(5) unchanged_fields(3)[OF u] by simp
  show ?thesis
    using a
  proof (rule settledI)
    show "has_status (graph s) (targetServiceStatus t) n \<Longrightarrow>
        has_status (graph s') (targetServiceStatus t) n" for n
      using visitor_nil(1) by (simp add: has_status_UpdateStatus[OF up])
    show "excused (workers s) n \<Longrightarrow> excused (workers s') n \<or> eg_err s' \<noteq> None \<or>
        has_status (graph s') (targetServiceStatus t) n" for n
      using visitor_nil(1,2) by (auto simp: excused_replace has_status_UpdateStatus[OF up])
  qed (use visitor_nil(1) in simp_all)
next
  case (worker_return ws node err ws')
  show ?thesis
    using a
  proof (rule settledI)
    show "excused (workers s) n \<Longrightarrow> excused (workers s') n \<or> eg_err s' \<noteq> None \<or>
        has_status (graph s') (targetServiceStatus t) n" for n
      using worker_return(1,2) by (auto simp: excused_replace)
  qed (use worker_return(1) in simp_all)
next
  case main_run_done
  then show ?thesis using a by (simp add: settled_def)
next
  case main_wait
  then show ?thesis using a by (simp add: settled_def)
next
  case coordinator_run_done
  then show ?thesis using a by (simp add: settled_def)
next
  case (receive_last ws node err ws')
  show ?thesis
    using a
  proof (rule settledI)
    show "excused (workers s) n \<Longrightarrow> excused (workers s') n \<or> eg_err s' \<noteq> None \<or>
        has_status (graph s') (targetServiceStatus t) n" for n
      using receive_last(1,3) by (auto simp: excused_replace)
  qed (use receive_last(1) in simp_all)
next
  case (receive ws node err ws' vertex)
  show ?thesis
    using a
  proof (rule settledI)
    show "excused (workers s) n \<Longrightarrow> excused (workers s') n \<or> eg_err s' \<noteq> None \<or>
        has_status (graph s') (targetServiceStatus t) n" for n
      using receive(1,3) by (auto simp: excused_replace)
  qed (use receive(1) in simp_all)
next
  case (invoke ws node ws')
  show ?thesis
    using a
  proof (rule settledI)
    show "n \<in> set (visited s') \<Longrightarrow> n \<in> set (visited s) \<or> excused (workers s') n" for n
      using invoke(1) by (auto simp: excused_replace)
    show "excused (workers s) n \<Longrightarrow> excused (workers s') n \<or> eg_err s' \<noteq> None \<or>
        has_status (graph s') (targetServiceStatus t) n" for n
      using invoke(1,2) by (auto simp: excused_replace)
  qed (use invoke(1) in simp_all)
next
  case (visitor_error ws node ws' vertex err)
  show ?thesis
    using a
  proof (rule settledI)
    show "excused (workers s) n \<Longrightarrow> excused (workers s') n \<or> eg_err s' \<noteq> None \<or>
        has_status (graph s') (targetServiceStatus t) n" for n
      using visitor_error(1,2) by (auto simp: excused_replace)
  qed (use visitor_error(1) in simp_all)
next
  case cancel
  then show ?thesis using a by (simp add: settled_def)
qed

lemma reachable_settled: "reachable rng t g s \<Longrightarrow> settled t s"
proof (induction rule: reachable.induct)
  case start
  show ?case by (rule settled_start)
next
  case (after s s')
  show ?case
    by (rule settled_step[OF after.hyps(2) reachable_unchanged[OF after.hyps(1)] after.IH])
qed

subsection \<open>Consequences for the graphs that NewGraph builds\<close>

lemma NewGraph_Inr: "NewGraph rng services st = Inr g \<Longrightarrow> g = built services st"
  by (auto simp: NewGraph_built split: option.splits)

lemma NewGraph_wf: "NewGraph rng services st = Inr g \<Longrightarrow> wf_graph g"
  using NewGraph_Inr built_props(2) by blast

lemma NewGraph_all_status: "NewGraph rng services st = Inr g \<Longrightarrow> all_status st g"
  using NewGraph_Inr built_props(3) by blast

lemma same_shape_lookup:
  assumes "same_shape g g'"
  shows "map_option (\<lambda>v. v\<lparr>Status := ServiceStopped\<rparr>) (map_of (Vertices g') k)
       = map_option (\<lambda>v. v\<lparr>Status := ServiceStopped\<rparr>) (map_of (Vertices g) k)"
proof -
  have m: "map_of (map (\<lambda>kv. (fst kv, f (snd kv))) xs) k = map_option f (map_of xs k)"
    for f :: "Vertex \<Rightarrow> Vertex" and xs
    by (induction xs) auto
  show ?thesis
    using arg_cong[OF assms[unfolded same_shape_def], of "\<lambda>xs. map_of xs k"]
    by (simp only: m)
qed

lemma same_shape_vertex:
  assumes "same_shape g g'" and "map_of (Vertices g') k = Some v'"
  obtains v where "map_of (Vertices g) k = Some v" "Key v' = Key v" "Service v' = Service v"
    "Children v' = Children v" "Parents v' = Parents v"
proof -
  from same_shape_lookup[OF assms(1), of k] assms(2)
  obtain v where v: "map_of (Vertices g) k = Some v"
    and e: "v'\<lparr>Status := ServiceStopped\<rparr> = v\<lparr>Status := ServiceStopped\<rparr>"
    by (cases "map_of (Vertices g) k") auto
  have "Key v' = Key v" using arg_cong[OF e, of Key] by simp
  moreover have "Service v' = Service v" using arg_cong[OF e, of Service] by simp
  moreover have "Children v' = Children v" using arg_cong[OF e, of Children] by simp
  moreover have "Parents v' = Parents v" using arg_cong[OF e, of Parents] by simp
  ultimately show ?thesis using that v by blast
qed

lemma same_shape_vertex':
  assumes "same_shape g g'" and "map_of (Vertices g) k = Some v"
  obtains v' where "map_of (Vertices g') k = Some v'" "Key v' = Key v" "Service v' = Service v"
    "Children v' = Children v" "Parents v' = Parents v"
proof -
  from same_shape_lookup[OF assms(1), of k] assms(2)
  obtain v' where v: "map_of (Vertices g') k = Some v'"
    by (cases "map_of (Vertices g') k") auto
  from same_shape_vertex[OF assms(1) v] assms(2) that v show ?thesis by auto
qed

lemma same_shape_wf:
  assumes "wf_graph g" and "same_shape g g'"
  shows "wf_graph g'"
  unfolding wf_graph_def
proof (intro conjI allI impI)
  show "distinct (map fst (Vertices g'))"
    using assms by (simp add: same_shape_fst wf_graph_def)
next
  fix k v' assume l: "map_of (Vertices g') k = Some v'"
  from same_shape_vertex[OF assms(2) l] obtain v where
    v: "map_of (Vertices g) k = Some v" "Key v' = Key v" "Service v' = Service v"
    "Children v' = Children v" "Parents v' = Parents v" by blast
  have w: "Key v = k \<and> Service v = k \<and> set (Children v) \<subseteq> keys g \<and> set (Parents v) \<subseteq> keys g"
    using assms(1) v(1) unfolding wf_graph_def by blast
  show "Key v' = k" using v w by simp
  show "Service v' = k" using v w by simp
  show "set (Children v') \<subseteq> keys g'" using v w same_shape_keys[OF assms(2)] by simp
  show "set (Parents v') \<subseteq> keys g'" using v w same_shape_keys[OF assms(2)] by simp
qed

lemma returned_all_visited:
  assumes wf: "wf_graph g" and t: "goes_up t \<or> goes_down t"
    and r: "reachable rng t g s" and m: "main s = MainReturned r'"
  shows "set (visited s) = keys g"
proof -
  have c: "countdown g s" by (rule reachable_countdown[OF r])
  have u: "unchanged t g s" by (rule reachable_unchanged[OF r])
  have "coordinator s = CoordinatorReturned" "workers s = []"
    using c m by (auto simp: countdown_def)
  then have len: "length (visited s) = length (Vertices g)"
    using c by (simp add: countdown_def unreceived_def)
  have d: "distinct (visited s)"
    using reachable_once[OF r] by (simp add: once_def)
  have sub: "set (visited s) \<subseteq> keys g"
    using reachable_all_ready[OF t r] u same_shape_keys[of g "graph s"]
    by (simp add: all_ready_def unchanged_def)
  have "card (keys g) = length (Vertices g)"
    using wf distinct_card[of "map fst (Vertices g)"] by (simp add: wf_graph_def keys_def)
  then have "card (set (visited s)) = card (keys g)"
    using len distinct_card[OF d] by simp
  moreover have "finite (keys g)" by (simp add: keys_def)
  ultimately show ?thesis using sub by (simp add: card_subset_eq)
qed

lemma visited_keys:
  assumes t: "goes_up t \<or> goes_down t" and r: "reachable rng t g s"
  shows "set (visited s) \<subseteq> keys g"
  using reachable_all_ready[OF t r] reachable_unchanged[OF r] same_shape_keys[of g "graph s"]
  by (simp add: all_ready_def unchanged_def)

lemma distinct_count_list: "distinct xs \<Longrightarrow> count_list xs k = (if k \<in> set xs then 1 else 0)"
  by (induction xs) auto

lemma invoke_only:
  assumes "step rng s s'" and "visited s' = visited s @ [node]"
  shows "(node, Spawned) \<in> set (workers s)"
  using assms(1)
proof (cases rule: step.cases)
  case (main_run pc pc' s1)
  then show ?thesis using assms(2) run_step_frame[OF main_run(3)] by simp
next
  case (coordinator_run pc pc' s1)
  then show ?thesis using assms(2) run_step_frame[OF coordinator_run(3)] by simp
next
  case (invoke ws node' ws')
  then show ?thesis using assms(2) by simp
qed (use assms(2) in simp_all)

lemma status_cases: "st \<noteq> ServiceStopped \<longleftrightarrow> st = ServiceStarted"
  by (cases st) auto

lemma returned_stable:
  assumes "step rng s s'" and "countdown g s" and "main s = MainReturned r"
  shows "main s' = MainReturned r"
  using assms(1)
proof (cases rule: step.cases)
  case (main_run pc pc' s1)
  then show ?thesis using assms(3) by simp
next
  case (coordinator_run pc pc' s1)
  then show ?thesis using assms(2,3) by (simp add: countdown_def)
qed (use assms(2,3) in \<open>simp_all add: countdown_def\<close>)

lemma gate_stays:
  assumes wf: "wf_graph g" and t: "goes_up t \<or> goes_down t"
    and c: "has_status g (adjacentServiceStatusToSkip t) c"
    and fails: "\<forall>d. visitorFn t d c \<noteq> None"
    and r: "reachable rng t g s"
  shows "has_status (graph s) (adjacentServiceStatusToSkip t) c"
  using r
proof (induction rule: reachable.induct)
  case start
  show ?case using c by (simp add: visit_start_def)
next
  case (after s s')
  note u = reachable_unchanged[OF after.hyps(1)]
  from after.hyps(2) show ?case
  proof (cases rule: step.cases)
    case (main_run pc pc' s1)
    then show ?thesis using after.IH run_step_frame[OF main_run(3)] by simp
  next
    case (coordinator_run pc pc' s1)
    then show ?thesis using after.IH run_step_frame[OF coordinator_run(3)] by simp
  next
    case (visitor_nil ws node ws' vertex g')
    have wfs: "wf_graph (graph s)"
      using same_shape_wf[OF wf] u by (simp add: unchanged_def)
    have "Service vertex = node"
      using wfs visitor_nil(3) unfolding wf_graph_def by blast
    then have "visitorFn t (ctx_done s) node = None"
      using visitor_nil(4) unchanged_fields(4)[OF u] by simp
    then have "node \<noteq> c" using fails[rule_format, of "ctx_done s"] by auto
    then show ?thesis
      using after.IH visitor_nil(1) by (simp add: has_status_UpdateStatus[OF visitor_nil(5)])
  qed (use after.IH in simp_all)
qed

subsection \<open>Schedules\<close>

lemma perform_main_step: "perform_main rng s = Some s' \<Longrightarrow> step rng s s'"
  unfolding perform_main_def
  by (auto split: main_pc.splits if_splits option.splits
      intro: step.main_run step.main_run_done step.main_wait)

lemma perform_coordinator_step: "perform_coordinator rng s = Some s' \<Longrightarrow> step rng s s'"
  unfolding perform_coordinator_def
  by (auto split: coordinator_pc.splits if_splits option.splits
      intro: step.coordinator_run step.coordinator_run_done)

lemma perform_worker_step:
  assumes "perform_worker rng i s = Some s'"
  shows "step rng s s'"
proof -
  have i: "i < length (workers s)"
    using assms by (auto simp: perform_worker_def Let_def split: if_splits)
  obtain node w where nw: "workers s ! i = (node, w)" by (cases "workers s ! i")
  have ws: "workers s = take i (workers s) @ (node, w) # drop (Suc i) (workers s)"
    using id_take_nth_drop[OF i] nw by simp
  show ?thesis
  proof (cases w)
    case Spawned
    have "s' = s\<lparr>workers := take i (workers s) @ (node, Visiting) # drop (Suc i) (workers s),
                  visited := visited s @ [node]\<rparr>"
      using assms i nw Spawned by (simp add: perform_worker_def Let_def)
    then show ?thesis using step.invoke[OF ws[unfolded Spawned]] by simp
  next
    case Visiting
    then obtain vertex where v: "map_of (Vertices (graph s)) node = Some vertex"
      using assms i nw by (auto simp: perform_worker_def Let_def split: option.splits)
    show ?thesis
    proof (cases "visitorFn (traversal s) (ctx_done s) (Service vertex)")
      case None
      then obtain g' where g': "UpdateStatus (graph s) node (targetServiceStatus (traversal s)) = Inr g'"
        and s': "s' = s\<lparr>graph := g',
            workers := take i (workers s) @ (node, Sending None) # drop (Suc i) (workers s)\<rparr>"
        using assms i nw Visiting v by (auto simp: perform_worker_def Let_def split: sum.splits)
      show ?thesis
        unfolding s' by (rule step.visitor_nil[OF ws[unfolded Visiting] v None g'])
    next
      case (Some err)
      then have s': "s' = s\<lparr>workers := take i (workers s) @ (node, Sending (Some err))
            # drop (Suc i) (workers s)\<rparr>"
        using assms i nw Visiting v by (simp add: perform_worker_def Let_def)
      show ?thesis
        unfolding s' by (rule step.visitor_error[OF ws[unfolded Visiting] v Some])
    qed
  next
    case (Sending err)
    have c: "coordinator s = Receive"
      using assms i nw Sending by (auto simp: perform_worker_def Let_def split: if_splits)
    show ?thesis
    proof (cases "expect s - 1 = 0")
      case True
      then have s': "s' = s\<lparr>expect := expect s - 1, nodeCh_closed := True,
            coordinator := CoordinatorReturned,
            workers := take i (workers s) @ (node, Sent err) # drop (Suc i) (workers s)\<rparr>"
        using assms i nw Sending c by (simp add: perform_worker_def Let_def)
      show ?thesis
        unfolding s' by (rule step.receive_last[OF c ws[unfolded Sending] True])
    next
      case False
      then obtain vertex where v: "map_of (Vertices (graph s)) node = Some vertex"
        and s': "s' = s\<lparr>expect := expect s - 1,
            coordinator := CoordinatorRun (Filter (adjacentNodesFn (traversal s) rng vertex)),
            workers := take i (workers s) @ (node, Sent err) # drop (Suc i) (workers s)\<rparr>"
        using assms i nw Sending c by (auto simp: perform_worker_def Let_def split: option.splits)
      show ?thesis
        unfolding s' by (rule step.receive[OF c ws[unfolded Sending] False v])
    qed
  next
    case (Sent err)
    then have s': "s' = s\<lparr>workers := take i (workers s) @ drop (Suc i) (workers s),
          eg_err := (if err \<noteq> None \<and> eg_err s = None then err else eg_err s),
          ctx_done := (ctx_done s \<or> err \<noteq> None)\<rparr>"
      using assms i nw by (simp add: perform_worker_def Let_def)
    show ?thesis
      unfolding s' by (rule step.worker_return[OF ws[unfolded Sent]])
  qed
qed

lemma perform_step: "perform rng a s = Some s' \<Longrightarrow> step rng s s'"
  by (cases a) (auto intro: perform_main_step perform_coordinator_step perform_worker_step)

lemma after_schedule_reachable:
  "reachable rng t g s \<Longrightarrow> reachable rng t g (after_schedule rng acts s)"
proof (induction acts arbitrary: s)
  case Nil
  then show ?case by simp
next
  case (Cons a acts)
  show ?case
  proof (cases "perform rng a s")
    case None
    then show ?thesis using Cons.prems by simp
  next
    case (Some s')
    have "reachable rng t g s'"
      by (rule reachable.after[OF Cons.prems perform_step[OF Some]])
    from Cons.IH[OF this] show ?thesis using Some by simp
  qed
qed

lemma after_schedule_step:
  "visited (after_schedule rng [a] s) \<noteq> visited s \<Longrightarrow> step rng s (after_schedule rng [a] s)"
  by (cases "perform rng a s") (auto intro: perform_step)

lemma diamond_NewGraph:
  "NewGraph (\<lambda>ks. ks) diamond st = Inr (built diamond st)"
proof -
  have "HasCycles (\<lambda>ks. ks) (built diamond st) = None"
    by code_simp
  then show ?thesis by (simp add: NewGraph_built)
qed

lemma diamond_done_facts:
  "main diamond_done = MainReturned None"
  "visited diamond_done = [''D'', ''B'', ''C'', ''A'']"
  by code_simp+

lemma diamond_stuck_facts:
  "main diamond_stuck = MainWait" "coordinator diamond_stuck = Receive"
  "workers diamond_stuck = []" "eg_err diamond_stuck = Some ''X''"
  "ctx_done diamond_stuck" "expect diamond_stuck = 1"
  "visited diamond_stuck = [''D'', ''B'', ''C'']"
  by code_simp+

subsection \<open>The diamond\<close>

lemma goes_up_upDirectionTraversal: "goes_up (upDirectionTraversal fn)"
  by (simp add: goes_up_def upDirectionTraversal_def)

lemma diamond_keys: "keys (built diamond st) = {''A'', ''B'', ''C'', ''D''}"
  by (auto simp: built_props(1) diamond_def)

lemma diamond_done_reachable:
  "reachable (\<lambda>ks. ks) (upDirectionTraversal succeeds) (built diamond ServiceStopped) diamond_done"
  unfolding diamond_done_def by (rule after_schedule_reachable[OF reachable.start])

lemma diamond_stuck_reachable:
  "reachable (\<lambda>ks. ks) (upDirectionTraversal fails_on_C) (built diamond ServiceStopped) diamond_stuck"
  unfolding diamond_stuck_def by (rule after_schedule_reachable[OF reachable.start])

lemma diamond_before_A_reachable:
  "reachable (\<lambda>ks. ks) (upDirectionTraversal succeeds) (built diamond ServiceStopped) diamond_before_A"
  unfolding diamond_before_A_def by (rule after_schedule_reachable[OF reachable.start])

lemma diamond_before_A_facts:
  "visited diamond_before_A = [''D'', ''B'', ''C'']"
  "visited (after_schedule (\<lambda>ks. ks) [Worker 0] diamond_before_A) = [''D'', ''B'', ''C'', ''A'']"
  "map_option Children (map_of (Vertices (graph diamond_before_A)) ''A'') = Some [''B'', ''C'']"
  by code_simp+

lemma cancel_done: "ctx_done s \<Longrightarrow> s\<lparr>ctx_done := True\<rparr> = s"
  by (cases s) simp

section \<open>Claims about the traversal\<close>

text \<open>
  Claim C4: in every state that a traversal, up or down, of a graph built by \<open>NewGraph\<close>
  can reach, under every interleaving of the caller, the coordinator and the workers, no
  vertex's visitor has been invoked more than once and nothing but a vertex of the
  graph has been visited; and once \<open>visit\<close> has returned, with an error or without, the
  visitor of every vertex has been invoked exactly once.
\<close>

theorem visitor_invoked_once:
  assumes "NewGraph rng' services status = Inr g"
    and "goes_up t \<or> goes_down t"
    and "reachable rng t g s"
  shows "(\<forall>k. count_list (visited s) k \<le> 1) \<and>
         (\<forall>k. k \<notin> keys g \<longrightarrow> count_list (visited s) k = 0) \<and>
         (\<forall>r. main s = MainReturned r \<longrightarrow> (\<forall>k \<in> keys g. count_list (visited s) k = 1))"
proof -
  have d: "distinct (visited s)"
    using reachable_once[OF assms(3)] by (simp add: once_def)
  have sub: "set (visited s) \<subseteq> keys g" by (rule visited_keys[OF assms(2,3)])
  have "set (visited s) = keys g" if "main s = MainReturned r" for r
    by (rule returned_all_visited[OF NewGraph_wf[OF assms(1)] assms(2,3) that])
  then show ?thesis
    using sub by (auto simp: distinct_count_list[OF d])
qed

theorem visitor_invoked_once_witness:
  "count_list (visited diamond_done) ''A'' = 1 \<and> count_list (visited diamond_done) ''B'' = 1 \<and>
   count_list (visited diamond_done) ''C'' = 1 \<and> count_list (visited diamond_done) ''D'' = 1 \<and>
   count_list (visited diamond_done) ''E'' = 0 \<and> main diamond_done = MainReturned None"
  using visitor_invoked_once[OF diamond_NewGraph
      disjI1[OF goes_up_upDirectionTraversal] diamond_done_reachable]
    diamond_done_facts(1)
  by (simp add: diamond_keys)
text \<open>
  Claim C5: whenever a step of the traversal invokes the visitor of a vertex, the status
  filter of that vertex is empty in the state in which the call is made: in an
  up-traversal every child of the vertex has the status \<open>ServiceStarted\<close>, in a
  down-traversal every parent has the status \<open>ServiceStopped\<close>.
\<close>

theorem visitor_invoked_when_ready:
  assumes "NewGraph rng' services status = Inr g"
    and "range_ok rng"
    and "goes_up t \<or> goes_down t"
    and "reachable rng t g s"
    and "step rng s s'"
    and "visited s' = visited s @ [node]"
  shows "filterAdjacentByStatusFn t rng (graph s) node (adjacentServiceStatusToSkip t) = Inr [] \<and>
         (\<exists>vertex. map_of (Vertices (graph s)) node = Some vertex \<and>
            (goes_up t \<longrightarrow> (\<forall>c \<in> set (Children vertex). has_status (graph s) ServiceStarted c)) \<and>
            (goes_down t \<longrightarrow> (\<forall>p \<in> set (Parents vertex). has_status (graph s) ServiceStopped p)))"
proof -
  have w: "(node, Spawned) \<in> set (workers s)" by (rule invoke_only[OF assms(5,6)])
  have rd: "ready rng t (graph s) node"
    using reachable_all_ready[OF assms(3,4)] w by (auto simp: all_ready_def)
  have wf: "wf_graph (graph s)"
    using same_shape_wf[OF NewGraph_wf[OF assms(1)]] reachable_unchanged[OF assms(4)]
    by (simp add: unchanged_def)
  have nk: "node \<in> keys (graph s)" by (rule ready_key[OF assms(3) rd])
  then obtain vertex where v: "map_of (Vertices (graph s)) node = Some vertex"
    by (auto simp: keys_conv_dom)
  have sub: "set (Children vertex) \<subseteq> keys (graph s)" "set (Parents vertex) \<subseteq> keys (graph s)"
    using wf v unfolding wf_graph_def by blast+
  have hs: "k \<in> keys (graph s) \<Longrightarrow> \<not> has_status (graph s) ServiceStopped k \<Longrightarrow>
      has_status (graph s) ServiceStarted k" for k
    by (auto simp: has_status_def keys_conv_dom status_cases)
  have hs': "k \<in> keys (graph s) \<Longrightarrow> \<not> has_status (graph s) ServiceStarted k \<Longrightarrow>
      has_status (graph s) ServiceStopped k" for k
    by (auto simp: has_status_def keys_conv_dom status_cases[symmetric])
  have up: "\<forall>c \<in> set (Children vertex). has_status (graph s) ServiceStarted c" if "goes_up t"
  proof
    fix c assume c: "c \<in> set (Children vertex)"
    have "filter (has_status (graph s) ServiceStopped) (rng (Children vertex)) = []"
      using rd that v by (simp add: ready_def goes_up_def FilterChildren_def)
    then have "\<not> has_status (graph s) ServiceStopped c"
      using c range_ok_set[OF assms(2)] by (auto simp: filter_empty_conv)
    then show "has_status (graph s) ServiceStarted c" using hs sub c by blast
  qed
  have down: "\<forall>p \<in> set (Parents vertex). has_status (graph s) ServiceStopped p" if "goes_down t"
  proof
    fix p assume p: "p \<in> set (Parents vertex)"
    have "filter (has_status (graph s) ServiceStarted) (rng (Parents vertex)) = []"
      using rd that v by (simp add: ready_def goes_down_def FilterParents_def)
    then have "\<not> has_status (graph s) ServiceStarted p"
      using p range_ok_set[OF assms(2)] by (auto simp: filter_empty_conv)
    then show "has_status (graph s) ServiceStopped p" using hs' sub p by blast
  qed
  show ?thesis using rd v up down by (auto simp: ready_def)
qed

theorem visitor_invoked_when_ready_witness:
  "FilterChildren (\<lambda>ks. ks) (graph diamond_before_A) ''A'' ServiceStopped = Inr [] \<and>
   has_status (graph diamond_before_A) ServiceStarted ''B'' \<and>
   has_status (graph diamond_before_A) ServiceStarted ''C''"
proof -
  have r: "range_ok (\<lambda>ks. ks)" by (simp add: range_ok_def)
  have st: "step (\<lambda>ks. ks) diamond_before_A (after_schedule (\<lambda>ks. ks) [Worker 0] diamond_before_A)"
    by (rule after_schedule_step) (simp only: diamond_before_A_facts, simp)
  have v: "visited (after_schedule (\<lambda>ks. ks) [Worker 0] diamond_before_A)
      = visited diamond_before_A @ [''A'']"
    by (simp only: diamond_before_A_facts append_Cons append_Nil)
  from visitor_invoked_when_ready[OF diamond_NewGraph r
      disjI1[OF goes_up_upDirectionTraversal] diamond_before_A_reachable st v]
  show ?thesis
    using diamond_before_A_facts(3)
    by (auto simp: upDirectionTraversal_def goes_up_upDirectionTraversal[unfolded upDirectionTraversal_def])
qed
text \<open>
  Claim C6: when \<open>visit\<close> has returned nil, every vertex of the graph has the target
  status of the traversal (\<open>ServiceStarted\<close> going up, \<open>ServiceStopped\<close> going down);
  and for the graph without vertices \<open>visit\<close> has returned nil from the start and
  never invokes the visitor.
\<close>

theorem returns_nil_all_target:
  assumes "NewGraph rng' services status = Inr g"
    and "goes_up t \<or> goes_down t"
    and "reachable rng t g s"
  shows "(main s = MainReturned None \<longrightarrow>
            (\<forall>k \<in> keys g. has_status (graph s) (targetServiceStatus t) k)) \<and>
         (Vertices g = [] \<longrightarrow> main s = MainReturned None \<and> visited s = [])"
proof (intro conjI impI)
  assume m: "main s = MainReturned None"
  have c: "countdown g s" by (rule reachable_countdown[OF assms(3)])
  have e: "eg_err s = None" "workers s = []"
    using c m by (auto simp: countdown_def)
  have v: "set (visited s) = keys g"
    by (rule returned_all_visited[OF NewGraph_wf[OF assms(1)] assms(2,3) m])
  show "\<forall>k \<in> keys g. has_status (graph s) (targetServiceStatus t) k"
    using reachable_settled[OF assms(3)] e v by (auto simp: settled_def excused_def)
next
  assume empty: "Vertices g = []"
  show "main s = MainReturned None"
    using assms(3)
  proof (induction rule: reachable.induct)
    case start
    show ?case using empty by (simp add: visit_start_def)
  next
    case (after s s')
    show ?case
      by (rule returned_stable[OF after.hyps(2) reachable_countdown[OF after.hyps(1)] after.IH])
  qed
  show "visited s = []"
    using visited_keys[OF assms(2,3)] empty by (simp add: keys_def)
qed

theorem returns_nil_all_target_witness:
  "main diamond_done = MainReturned None \<and>
   has_status (graph diamond_done) ServiceStarted ''A'' \<and>
   has_status (graph diamond_done) ServiceStarted ''B'' \<and>
   has_status (graph diamond_done) ServiceStarted ''C'' \<and>
   has_status (graph diamond_done) ServiceStarted ''D''"
  using returns_nil_all_target[OF diamond_NewGraph
      disjI1[OF goes_up_upDirectionTraversal] diamond_done_reachable]
    diamond_done_facts(1)
  by (simp add: diamond_keys upDirectionTraversal_def)
text \<open>
  Claim C2 says that \<open>visit\<close> returns the first error of a visitor.  The code does not
  when a vertex waits for the failed one: a vertex \<open>a\<close> gated by a vertex \<open>c\<close> whose
  visitor fails is never visited (this part of the claim holds), so the countdown never
  reaches zero, the coordinator never leaves its loop over \<open>nodeCh\<close>, and \<open>eg.Wait\<close>,
  hence \<open>visit\<close>, never returns.  The witness is the diamond with \<open>C\<close> failing: the
  state after \<open>D\<close>, \<open>B\<close> and \<open>C\<close> have been received has the error \<open>X\<close>
  recorded and the caller waiting, and no step leads out of it.
\<close>

theorem failed_visitor_blocks_return:
  assumes "NewGraph rng' services (adjacentServiceStatusToSkip t) = Inr g"
    and "range_ok rng"
    and "goes_up t \<or> goes_down t"
    and "map_of (Vertices g) a = Some vertex"
    and "c \<in> set (if goes_up t then Children vertex else Parents vertex)"
    and "\<forall>d. visitorFn t d c \<noteq> None"
    and "reachable rng t g s"
  shows "a \<notin> set (visited s) \<and> (\<forall>r. main s \<noteq> MainReturned r)"
proof -
  note wf = NewGraph_wf[OF assms(1)]
  have ck: "c \<in> keys g"
    using wf assms(4,5) unfolding wf_graph_def by (auto split: if_splits)
  have c0: "has_status g (adjacentServiceStatusToSkip t) c"
    using ck NewGraph_all_status[OF assms(1)]
    by (auto simp: has_status_def all_status_def keys_conv_dom)
  have blocked: "\<not> ready rng t (graph s) a" if r: "reachable rng t g s" for s
  proof -
    have hs: "has_status (graph s) (adjacentServiceStatusToSkip t) c"
      by (rule gate_stays[OF wf assms(3) c0 assms(6) r])
    have sh: "same_shape g (graph s)"
      using reachable_unchanged[OF r] by (simp add: unchanged_def)
    from same_shape_vertex'[OF sh assms(4)] obtain v' where
      v': "map_of (Vertices (graph s)) a = Some v'" "Children v' = Children vertex"
      "Parents v' = Parents vertex" by blast
    from assms(3) show ?thesis
    proof
      assume up: "goes_up t"
      then have "c \<in> set (rng (Children v'))"
        using assms(5) v' range_ok_set[OF assms(2)] by simp
      then have "filter (has_status (graph s) (adjacentServiceStatusToSkip t)) (rng (Children v')) \<noteq> []"
        using hs by (auto simp: filter_empty_conv)
      then show ?thesis using up v' by (simp add: ready_def goes_up_def FilterChildren_def)
    next
      assume down: "goes_down t"
      then have nu: "\<not> goes_up t" by (auto simp: goes_up_def goes_down_def)
      then have "c \<in> set (rng (Parents v'))"
        using assms(5) v' range_ok_set[OF assms(2)] by simp
      then have "filter (has_status (graph s) (adjacentServiceStatusToSkip t)) (rng (Parents v')) \<noteq> []"
        using hs by (auto simp: filter_empty_conv)
      then show ?thesis using down v' by (simp add: ready_def goes_down_def FilterParents_def)
    qed
  qed
  have nv: "a \<notin> set (visited s)"
    using assms(7)
  proof (induction rule: reachable.induct)
    case start
    show ?case by (simp add: visit_start_def)
  next
    case (after s s')
    have nw: "(a, w) \<notin> set (workers s)" for w
      using reachable_all_ready[OF assms(3) after.hyps(1)] blocked[OF after.hyps(1)]
      by (auto simp: all_ready_def)
    from after.hyps(2) show ?case
    proof (cases rule: step.cases)
      case (main_run pc pc' s1)
      then show ?thesis using after.IH run_step_frame[OF main_run(3)] by simp
    next
      case (coordinator_run pc pc' s1)
      then show ?thesis using after.IH run_step_frame[OF coordinator_run(3)] by simp
    next
      case (invoke ws node ws')
      then show ?thesis using after.IH nw[of Spawned] by auto
    qed (use after.IH in simp_all)
  qed
  have "main s \<noteq> MainReturned r" for r
  proof
    assume "main s = MainReturned r"
    from returned_all_visited[OF wf assms(3,7) this] nv assms(4)
    show False by (auto simp: keys_conv_dom)
  qed
  with nv show ?thesis by blast
qed

theorem failed_visitor_blocks_return_witness:
  "''A'' \<notin> set (visited diamond_stuck) \<and> main diamond_stuck = MainWait \<and>
   coordinator diamond_stuck = Receive \<and> workers diamond_stuck = [] \<and>
   expect diamond_stuck = 1 \<and> eg_err diamond_stuck = Some ''X'' \<and>
   {s'. step (\<lambda>ks. ks) diamond_stuck s'} = {diamond_stuck} \<and>
   InDependencyOrder (\<lambda>ks. ks) diamond fails_on_C []
     = Inr (visit_start (\<lambda>ks. ks) (upDirectionTraversal fails_on_C)
              (built diamond ServiceStopped))"
proof -
  have entry: "InDependencyOrder (\<lambda>ks. ks) diamond fails_on_C []
     = Inr (visit_start (\<lambda>ks. ks) (upDirectionTraversal fails_on_C)
              (built diamond ServiceStopped))"
    by (simp add: InDependencyOrder_def diamond_NewGraph)
  have r: "range_ok (\<lambda>ks. ks)" by (simp add: range_ok_def)
  have ng: "NewGraph (\<lambda>ks. ks) diamond (adjacentServiceStatusToSkip (upDirectionTraversal fails_on_C))
      = Inr (built diamond ServiceStopped)"
    by (simp add: diamond_NewGraph upDirectionTraversal_def)
  have a: "map_of (Vertices (built diamond ServiceStopped)) ''A''
      = Some \<lparr>Key = ''A'', Service = ''A'', Status = ServiceStopped,
               Children = [''B'', ''C''], Parents = []\<rparr>"
    by code_simp
  have c: "''C'' \<in> set (if goes_up (upDirectionTraversal fails_on_C)
      then Children \<lparr>Key = ''A'', Service = ''A'', Status = ServiceStopped,
               Children = [''B'', ''C''], Parents = []\<rparr>
      else Parents \<lparr>Key = ''A'', Service = ''A'', Status = ServiceStopped,
               Children = [''B'', ''C''], Parents = []\<rparr>)"
    by (simp add: goes_up_upDirectionTraversal)
  have f: "\<forall>d. visitorFn (upDirectionTraversal fails_on_C) d ''C'' \<noteq> None"
    by (simp add: upDirectionTraversal_def fails_on_C_def)
  have nv: "''A'' \<notin> set (visited diamond_stuck)"
    using failed_visitor_blocks_return[OF ng r disjI1[OF goes_up_upDirectionTraversal] a c f
        diamond_stuck_reachable]
    by simp
  have only: "s' = diamond_stuck" if "step (\<lambda>ks. ks) diamond_stuck s'" for s'
    using that
  proof (cases rule: step.cases)
    case cancel
    then show ?thesis using cancel_done[OF diamond_stuck_facts(5)] by simp
  qed (use diamond_stuck_facts in simp_all)
  have "step (\<lambda>ks. ks) diamond_stuck diamond_stuck"
    using step.cancel[of "\<lambda>ks. ks" diamond_stuck] cancel_done[OF diamond_stuck_facts(5)] by simp
  then have "{s'. step (\<lambda>ks. ks) diamond_stuck s'} = {diamond_stuck}"
    using only by auto
  then show ?thesis using nv diamond_stuck_facts entry by simp
qed

section \<open>Claims about the container watcher\<close>

lemma scenario_outcome_eq:
  "scenario_outcome =
     \<lparr>returned = None, subscribed = True,
      final = \<lparr>expected = [''c2'', ''c2''], watched = [(''c2'', 1)], replaced = [''c1''],
               cancelled = False,
               trace = [OnRecreate scenario_c2 1,
                        Listener \<lparr>ce_Type = ContainerEventRecreated, ce_Container = ''/a-1'',
                                  ce_ID = ''c1'', ce_Service = ''a'', ce_ExitCode = 0,
                                  ce_Restarting = False\<rparr>,
                        OnStart scenario_c2 3]\<rparr>\<rparr>"
  by code_simp

lemma seed_expected_gen:
  "expected (fold (\<lambda>c w.
        let w = (if Contains required (label (Labels c) ServiceLabel)
                 then w\<lparr>expected := expected w @ [ID c]\<rparr> else w)
        in w\<lparr>watched := assign (ID c) 0 (watched w)\<rparr>) containers w0)
   = expected w0 @ map ID (filter (\<lambda>c. label (Labels c) ServiceLabel \<in> set required) containers)"
  by (induction containers arbitrary: w0) (auto simp: Contains_def Let_def)

lemma seed_expected:
  "expected (seed required containers)
     = map ID (filter (\<lambda>c. label (Labels c) ServiceLabel \<in> set required) containers)"
  by (simp add: seed_def seed_expected_gen)

text \<open>
  Claim C9: with an empty snapshot of containers \<open>watchContainers\<close> returns nil at once,
  whatever \<open>services\<close>, \<open>required\<close> and the pending events are: \<open>Events\<close> is never
  called, and neither the listener nor \<open>onStart\<close> or \<open>onRecreate\<close> is invoked.
\<close>

theorem watchContainers_empty_snapshot:
  "watchContainers nameOf services required [] onStart onRecreate occurrences
     = \<lparr>returned = Some None, subscribed = False,
        final = \<lparr>expected = [], watched = [], replaced = [], cancelled = False, trace = []\<rparr>\<rparr>"
  by (simp add: watchContainers_def)

theorem watchContainers_empty_snapshot_witness:
  "returned (watchContainers (\<lambda>c. hd (Names c)) [''a''] [''a''] [] (\<lambda>c t. None) (\<lambda>c t. None)
      scenario_events) = Some None \<and>
   \<not> subscribed (watchContainers (\<lambda>c. hd (Names c)) [''a''] [''a''] [] (\<lambda>c t. None) (\<lambda>c t. None)
      scenario_events) \<and>
   trace (final (watchContainers (\<lambda>c. hd (Names c)) [''a''] [''a''] [] (\<lambda>c t. None) (\<lambda>c t. None)
      scenario_events)) = []"
  by (simp add: watchContainers_empty_snapshot)

text \<open>
  Claim C10: with an empty \<open>required\<close> list \<open>watchContainers\<close> behaves as with
  \<open>required = services\<close>; in particular, before any event, \<open>expected\<close> holds the IDs
  of the initial containers whose service label is in \<open>services\<close>, in their order.
\<close>

theorem watchContainers_required_defaults_to_services:
  "watchContainers nameOf services [] containers onStart onRecreate occurrences
     = watchContainers nameOf services services containers onStart onRecreate occurrences \<and>
   (containers \<noteq> [] \<longrightarrow>
      expected (final (watchContainers nameOf services [] containers onStart onRecreate []))
        = map ID (filter (\<lambda>c. label (Labels c) ServiceLabel \<in> set services) containers))"
  by (auto simp: watchContainers_def seed_expected Let_def split: prod.splits if_splits)

theorem watchContainers_required_defaults_to_services_witness:
  "watchContainers (\<lambda>c. hd (Names c)) [''a''] [] [scenario_c1] (\<lambda>c t. None) (\<lambda>c t. None) []
     = watchContainers (\<lambda>c. hd (Names c)) [''a''] [''a''] [scenario_c1] (\<lambda>c t. None) (\<lambda>c t. None) [] \<and>
   expected (final (watchContainers (\<lambda>c. hd (Names c)) [''a''] [] [scenario_c1]
       (\<lambda>c t. None) (\<lambda>c t. None) [])) = [''c1'']"
  using watchContainers_required_defaults_to_services
    [of "\<lambda>c. hd (Names c)" "[''a'']" "[scenario_c1]" "\<lambda>c t. None" "\<lambda>c t. None" "[]"]
  by (auto simp: scenario_c1_def label_def)

text \<open>
  Claim C7, as the specification states it: in the recreation scenario \<open>expected\<close>
  drains and the watcher returns nil.  It does not hold: the \<open>create\<close> event puts
  \<open>c2\<close> into \<open>expected\<close> (twice), \<open>stop(c1)\<close> takes out \<open>c1\<close> only and
  \<open>start(c2)\<close> takes out nothing, so after the three events \<open>expected\<close> is
  \<open>[c2, c2]\<close>, \<open>stop\<close> has not been called and the watcher is still subscribed.
\<close>

theorem recreation_scenario_counterexample:
  "returned scenario_outcome = None \<and> expected (final scenario_outcome) = [''c2'', ''c2'']"
  by (simp add: scenario_outcome_eq)

text \<open>
  Claim C7, amended: on a \<open>create\<close> event whose inspected container carries the
  replace-label naming \<open>oldID\<close>, the consumer appends \<open>oldID\<close> to \<open>replaced\<close> and
  invokes \<open>onRecreate\<close>, whose error it returns.  When \<open>onRecreate\<close> returns nil it sets
  the watched counter of the new container to 1 and appends the new ID to \<open>expected\<close>
  (twice) if and only if \<open>oldID\<close> was in \<open>expected\<close>; when \<open>onRecreate\<close> fails,
  \<open>watched\<close> and \<open>expected\<close> stay as they were.  In the recreation scenario the
  calls are \<open>onRecreate(c2)\<close>, the listener with \<open>Recreated\<close> for \<open>c1\<close>, and
  \<open>onStart(c2)\<close>; \<open>c1\<close> leaves \<open>expected\<close>, \<open>c2\<close> stays in it, and the watcher
  has not returned.
\<close>

theorem create_with_replace_label:
  assumes "event_Status event = ''create''"
    and "map_of (inspected_Labels inspected) ContainerReplaceLabel = Some oldID"
    and "container = \<lparr>ID = inspected_ID inspected, Names = [inspected_Name inspected],
                      Labels = inspected_Labels inspected\<rparr>"
    and "consumer nameOf onStart onRecreate w event (Inspected inspected) = (err, w')"
  shows "replaced w' = replaced w @ [oldID] \<and>
         trace w' = trace w @ [OnRecreate container (event_Timestamp event)] \<and>
         err = onRecreate container (event_Timestamp event) \<and>
         (err = None \<longrightarrow>
            map_of (watched w') (inspected_ID inspected) = Some 1 \<and>
            expected w' = (if oldID \<in> set (expected w)
                           then expected w @ [inspected_ID inspected, inspected_ID inspected]
                           else expected w)) \<and>
         (err \<noteq> None \<longrightarrow> watched w' = watched w \<and> expected w' = expected w) \<and>
         returned scenario_outcome = None \<and>
         set (expected (final scenario_outcome)) = {''c2''} \<and>
         trace (final scenario_outcome)
           = [OnRecreate scenario_c2 1,
              Listener \<lparr>ce_Type = ContainerEventRecreated, ce_Container = ''/a-1'',
                        ce_ID = ''c1'', ce_Service = ''a'', ce_ExitCode = 0,
                        ce_Restarting = False\<rparr>,
              OnStart scenario_c2 3]"
proof -
  have "replaced w' = replaced w @ [oldID] \<and>
         trace w' = trace w @ [OnRecreate container (event_Timestamp event)] \<and>
         err = onRecreate container (event_Timestamp event) \<and>
         (err = None \<longrightarrow>
            map_of (watched w') (inspected_ID inspected) = Some 1 \<and>
            expected w' = (if oldID \<in> set (expected w)
                           then expected w @ [inspected_ID inspected, inspected_ID inspected]
                           else expected w)) \<and>
         (err \<noteq> None \<longrightarrow> watched w' = watched w \<and> expected w' = expected w)"
    using assms
    by (auto simp: consumer_def case_create_def Let_def StringContains_def Contains_def
        map_of_assign split: if_splits)
  then show ?thesis by (simp add: scenario_outcome_eq)
qed

theorem create_with_replace_label_witness:
  "replaced (snd (consumer (\<lambda>c. hd (Names c)) (\<lambda>c t. None) (\<lambda>c t. None)
       (seed [''a''] [scenario_c1])
       \<lparr>event_Timestamp = 1, event_Container = ''c2'', event_Status = ''create''\<rparr>
       (Inspected scenario_inspect_c2))) = [''c1''] \<and>
   map_of (watched (snd (consumer (\<lambda>c. hd (Names c)) (\<lambda>c t. None) (\<lambda>c t. None)
       (seed [''a''] [scenario_c1])
       \<lparr>event_Timestamp = 1, event_Container = ''c2'', event_Status = ''create''\<rparr>
       (Inspected scenario_inspect_c2)))) ''c2'' = Some 1 \<and>
   expected (snd (consumer (\<lambda>c. hd (Names c)) (\<lambda>c t. None) (\<lambda>c t. None)
       (seed [''a''] [scenario_c1])
       \<lparr>event_Timestamp = 1, event_Container = ''c2'', event_Status = ''create''\<rparr>
       (Inspected scenario_inspect_c2))) = [''c1'', ''c2'', ''c2'']"
proof -
  let ?event = "\<lparr>event_Timestamp = 1, event_Container = ''c2'', event_Status = ''create''\<rparr>"
  let ?w = "seed [''a''] [scenario_c1]"
  let ?r = "consumer (\<lambda>c. hd (Names c)) (\<lambda>c t. None) (\<lambda>c t. None) ?w ?event
              (Inspected scenario_inspect_c2)"
  have a1: "event_Status ?event = ''create''" by simp
  have a2: "map_of (inspected_Labels scenario_inspect_c2) ContainerReplaceLabel = Some ''c1''"
    by (simp add: scenario_inspect_c2_def ServiceLabel_def ContainerReplaceLabel_def)
  have a3: "scenario_c2 = \<lparr>ID = inspected_ID scenario_inspect_c2,
        Names = [inspected_Name scenario_inspect_c2],
        Labels = inspected_Labels scenario_inspect_c2\<rparr>"
    by (simp add: scenario_c2_def scenario_inspect_c2_def)
  have a4: "?r = (fst ?r, snd ?r)" by simp
  have w: "expected ?w = [''c1'']" "replaced ?w = []"
    by (simp_all add: seed_def scenario_c1_def label_def Contains_def)
  show ?thesis
    using create_with_replace_label[OF a1 a2 a3 a4] w
    by (simp add: scenario_inspect_c2_def)
qed

end
